theory Spec2Isabelle
  imports Main "HOL-Library.AList" "HOL-Library.Multiset"
begin

section \<open>Values, objects and strings of the program\<close>

text \<open>
  The program is \<^verbatim>\<open>src/js/modules/Env.js\<close>, an ES module (strict mode). Its objects
  are dynamic, so an object is a property list in enumeration order (insertion order; the
  property names used here are not integer-like), written with \<open>AList.update\<close>: a
  property that exists keeps its place, a new one goes last. A string is a list of code
  units below 256. The values a parsed document can hold are strings, booleans, null,
  arrays and objects; \<open>JUndefined\<close> is the value of a property that was assigned
  \<^verbatim>\<open>undefined\<close>. A property that is missing is \<open>None\<close> of \<open>map_of\<close>.
\<close>

datatype jsval =
    JUndefined
  | JNull
  | JBool bool
  | JStr string
  | JArr "jsval list"
  | JObj "(string \<times> jsval) list"

type_synonym shortcut = "(string \<times> jsval) list"

type_synonym shortcuts = "(string \<times> shortcut) list"

text \<open>Truthiness of a value (\<^verbatim>\<open>if (v)\<close>, \<^verbatim>\<open>!v\<close>, \<^verbatim>\<open>v || w\<close>).\<close>

fun truthy :: "jsval \<Rightarrow> bool" where
  "truthy JUndefined = False"
| "truthy JNull = False"
| "truthy (JBool b) = b"
| "truthy (JStr s) = (s \<noteq> [])"
| "truthy (JArr xs) = True"
| "truthy (JObj fs) = True"

text \<open>Truthiness of a property that holds a string or is missing.\<close>

fun truthyStr :: "string option \<Rightarrow> bool" where
  "truthyStr None = False"
| "truthyStr (Some s) = (s \<noteq> [])"

text \<open>\<^verbatim>\<open>'...' + s\<close> for a string that may be \<^verbatim>\<open>undefined\<close>.\<close>

fun strOrUndefined :: "string option \<Rightarrow> string" where
  "strOrUndefined None = ''undefined''"
| "strOrUndefined (Some s) = s"

text \<open>\<^verbatim>\<open>v.p\<close> of a truthy value \<open>v\<close>, for the property names \<^verbatim>\<open>key\<close> and
  \<^verbatim>\<open>namespace\<close>: only an object has them.\<close>

fun getProp :: "jsval \<Rightarrow> string \<Rightarrow> jsval" where
  "getProp (JObj fs) p = (case map_of fs p of None \<Rightarrow> JUndefined | Some v \<Rightarrow> v)"
| "getProp v p = JUndefined"

text \<open>\<^verbatim>\<open>xs.join(sep)\<close> on strings.\<close>

fun joinWith :: "string \<Rightarrow> string list \<Rightarrow> string" where
  "joinWith sep [] = []"
| "joinWith sep [x] = x"
| "joinWith sep (x # y # ys) = x @ sep @ joinWith sep (y # ys)"

text \<open>The property name a value stands for in \<^verbatim>\<open>obj[v]\<close> (ToString; an array joins its
  elements with a comma, null and undefined elements as empty strings).\<close>

fun toStr :: "jsval \<Rightarrow> string" where
  "toStr JUndefined = ''undefined''"
| "toStr JNull = ''null''"
| "toStr (JBool b) = (if b then ''true'' else ''false'')"
| "toStr (JStr s) = s"
| "toStr (JArr xs) =
     joinWith '','' (map (\<lambda>x. if x = JUndefined \<or> x = JNull then [] else toStr x) xs)"
| "toStr (JObj fs) = ''[object Object]''"

text \<open>\<^verbatim>\<open>Object.assign(target, source)\<close>: every own property of the source is written
  onto the target, in the source's order; a source that is \<^verbatim>\<open>undefined\<close> changes nothing.\<close>

definition assign :: "shortcut \<Rightarrow> shortcut option \<Rightarrow> shortcut" where
  "assign target source =
     (case source of
        None \<Rightarrow> target
      | Some src \<Rightarrow> fold (\<lambda>(p, v) t. AList.update p v t) src target)"

section \<open>Namespace Resolver\<close>

text \<open>
  A namespace of the caller's list is a string or an object with the properties
  \<^verbatim>\<open>url\<close>, \<^verbatim>\<open>name\<close> and \<^verbatim>\<open>github\<close>, each a string or missing. The descriptor made
  of it gains \<^verbatim>\<open>type\<close>, \<^verbatim>\<open>priority\<close> and \<^verbatim>\<open>shortcuts\<close> later; until they are
  assigned the record holds priority 0 (no usable priority) and no shortcuts.

  The value of \<^verbatim>\<open>namespaceInfo.shortcuts\<close> is kept in two fields. \<open>shortcuts\<close> holds its
  enumerable properties, the entries under their keys. \<open>nullish\<close> says that the value is
  \<^verbatim>\<open>undefined\<close> or \<^verbatim>\<open>null\<close>: the property was never assigned, or the document was
  empty. Such a value has no properties, a loop over its keys does nothing, and reading
  a key of it throws.
\<close>

datatype nsspec =
    NsString string
  | NsObject (specUrl: "string option") (specName: "string option") (specGithub: "string option")

record nsinfo =
  name :: "string option"
  type :: "string option"
  url :: "string option"
  github :: "string option"
  priority :: int
  shortcuts :: shortcuts
  nullish :: bool

definition addFetchUrlToSiteNamespace :: "string \<Rightarrow> nsinfo" where
  "addFetchUrlToSiteNamespace nm =
     \<lparr> name = Some nm,
       type = Some ''site'',
       url = Some (''https://data.trovu.net/data/shortcuts/'' @ nm @ ''.yml''),
       github = None,
       priority = 0,
       shortcuts = [],
       nullish = True \<rparr>"

text \<open>\<open>thisGithub\<close> is \<^verbatim>\<open>this.github\<close>, the caller's configured account.\<close>

definition addFetchUrlToGithubNamespace ::
  "string option \<Rightarrow> string option \<Rightarrow> string option \<Rightarrow> nsinfo" where
  "addFetchUrlToGithubNamespace thisGithub nm gh =
     (let gh1 = (if gh = Some ''.'' then thisGithub else gh);
          nm1 = (if \<not> truthyStr nm then gh1 else nm)
      in \<lparr> name = nm1,
           type = Some ''user'',
           url = Some (''https://raw.githubusercontent.com/'' @ strOrUndefined gh1 @
                       ''/trovu-data-user/master/shortcuts.yml''),
           github = gh1,
           priority = 0,
           shortcuts = [],
           nullish = True \<rparr>)"

fun getInitalNamespaceInfo :: "string option \<Rightarrow> nsspec \<Rightarrow> nsinfo" where
  "getInitalNamespaceInfo thisGithub (NsString s) =
     (if length s < 4 then addFetchUrlToSiteNamespace s
      else addFetchUrlToGithubNamespace thisGithub None (Some s))"
| "getInitalNamespaceInfo thisGithub (NsObject u nm gh) =
     (if truthyStr u \<and> truthyStr nm
      then \<lparr> name = nm, type = Some ''user'', url = u, github = gh,
             priority = 0, shortcuts = [], nullish = True \<rparr>
      else addFetchUrlToGithubNamespace thisGithub nm gh)"

text \<open>\<^verbatim>\<open>Object.fromEntries\<close> of the descriptors, each under its name and with its
  1-based position as priority. A name that comes twice keeps the place of its first
  descriptor and the value of its last. (The names are in insertion order: a name that
  is a canonical array index, such as \<open>42\<close>, which an object enumerates before all
  other names, is not among them.)\<close>

fun fromEntries :: "(string \<times> 'a) list \<Rightarrow> (string \<times> 'a) list" where
  "fromEntries es = fold (\<lambda>(k, v) m. AList.update k v m) es []"

definition getInitialNamespaceInfos :: "string option \<Rightarrow> nsspec list \<Rightarrow> (string \<times> nsinfo) list" where
  "getInitialNamespaceInfos thisGithub namespaces =
     fromEntries
       (map (\<lambda>(index, namespace).
               (let namespaceInfo = (getInitalNamespaceInfo thisGithub namespace)
                                      \<lparr> priority := int index + 1 \<rparr>
                in (strOrUndefined (name namespaceInfo), namespaceInfo)))
            (enumerate 0 namespaces))"

section \<open>The session and its collaborators\<close>

text \<open>
  The fields of \<^verbatim>\<open>this\<close> that the resolution reads or writes, and the lines that
  \<^verbatim>\<open>Helper.log\<close> was called with, oldest first.
\<close>

record env =
  this_github :: "string option"
  this_reload :: bool
  this_debug :: bool
  this_error :: bool
  logged :: "string list"

text \<open>
  The collaborators are parameters. \<^verbatim>\<open>fetch(url, {cache})\<close> settles with a response or
  rejects (a transport failure); its result depends on the URL and the cache mode only.
  \<^verbatim>\<open>jsyaml.load\<close> throws with a message or returns the document. A document is a
  mapping from keys to a bare URL string or an object (\<open>Mapping\<close>, in the order in which
  \<^verbatim>\<open>for ... in\<close> visits the keys; a sequence is a mapping under its indices), a string
  (\<open>Text\<close>: a text that is no YAML collection is a plain scalar and loads as a string),
  a value without enumerable properties (\<open>Keyless\<close>: a number, a boolean, a date), or
  \<^verbatim>\<open>undefined\<close> or \<^verbatim>\<open>null\<close> (\<open>Nothing\<close>: an empty text loads as \<^verbatim>\<open>undefined\<close>). An
  entry of a mapping that is \<^verbatim>\<open>null\<close>, a number or a boolean has no counterpart in
  \<open>raw\<close>; \<^verbatim>\<open>addReachable\<close> throws at such an entry.
  \<^verbatim>\<open>UrlProcessor.getArgumentsFromString\<close> is not among the sources. \<open>settleOrder\<close> is
  the scheduler: it puts the fetches that were started, each with its index in the
  \<^verbatim>\<open>promises\<close> array, into the order in which they settle.
\<close>

record response =
  status :: int
  responseUrl :: string
  body :: string

datatype fetched = Rejected | Fulfilled response

datatype raw = Bare string | Full shortcut

datatype document =
    Mapping "(string \<times> raw) list"
  | Text string
  | Keyless
  | Nothing

datatype parsed = YamlError string | Document document

record world =
  net :: "string \<Rightarrow> bool \<Rightarrow> fetched"
  yamlLoad :: "string \<Rightarrow> parsed"
  getArgumentsFromString :: "jsval \<Rightarrow> jsval"
  settleOrder :: "(int \<times> string) list \<Rightarrow> (int \<times> string) list"

text \<open>What an \<^verbatim>\<open>await\<close> can throw: the rejection of a fetch, and a property access that
  fails.\<close>

datatype exn = NetworkError | TypeError

definition helperLog :: "string \<Rightarrow> env \<Rightarrow> env" where
  "helperLog msg this = this \<lparr> logged := logged this @ [msg] \<rparr>"

definition newline :: string where
  "newline = [CHR 0x0A]"

section \<open>Shortcut Verifier\<close>

text \<open>Code units that \<^verbatim>\<open>\s\<close> matches (below 256) and that \<^verbatim>\<open>\d\<close> matches.\<close>

definition isWhitespace :: "char \<Rightarrow> bool" where
  "isWhitespace c = (c \<in> set [CHR 0x09, CHR 0x0A, CHR 0x0B, CHR 0x0C, CHR 0x0D, CHR 0x20, CHR 0xA0])"

definition isDigit :: "char \<Rightarrow> bool" where
  "isDigit c = (c \<in> set ''0123456789'')"

text \<open>\<^verbatim>\<open>key.match(/\S+ \d/)\<close>: the pattern is not anchored, so it matches when some
  non-whitespace code unit is followed by a space and a digit.\<close>

fun matchesKeyPattern :: "string \<Rightarrow> bool" where
  "matchesKeyPattern (a # b # c # rest) =
     ((\<not> isWhitespace a \<and> b = CHR 0x20 \<and> isDigit c) \<or> matchesKeyPattern (b # c # rest))"
| "matchesKeyPattern s = False"

definition incorrectKeysMessage :: "string option \<Rightarrow> string list \<Rightarrow> string" where
  "incorrectKeysMessage namespaceName incorrectKeys =
     ''Incorrect keys found in namespace '' @ [CHR 0x27] @ strOrUndefined namespaceName @
     [CHR 0x27] @ ''. Keys must have the form '' @ [CHR 0x27] @ ''KEYWORD ARGCOUNT'' @
     [CHR 0x27] @ '', e.g.: '' @ [CHR 0x27] @ ''foo 0'' @ [CHR 0x27] @
     newline @ newline @ joinWith newline incorrectKeys"

text \<open>\<^verbatim>\<open>verifyShortcuts\<close> on a mapping: the loop collects the keys that do not match
  and turns every bare string into an object with only a \<^verbatim>\<open>url\<close>; no key is removed.
  What the call does with a document that is no mapping follows as \<open>verifyDocument\<close>.\<close>

definition normalizeRaw :: "raw \<Rightarrow> shortcut" where
  "normalizeRaw v = (case v of Bare u \<Rightarrow> [(''url'', JStr u)] | Full e \<Rightarrow> e)"

definition verifyShortcuts ::
  "(string \<times> raw) list \<Rightarrow> string option \<Rightarrow> env \<Rightarrow> shortcuts \<times> env" where
  "verifyShortcuts doc namespaceName this =
     (let incorrectKeys = filter (\<lambda>k. \<not> matchesKeyPattern k) (map fst doc);
          normalized = map (\<lambda>(k, v). (k, normalizeRaw v)) doc
      in if length incorrectKeys > 0
         then (normalized,
               (helperLog (incorrectKeysMessage namespaceName incorrectKeys) this)
                 \<lparr> this_error := True \<rparr>)
         else (normalized, this))"

text \<open>
  \<^verbatim>\<open>verifyShortcuts\<close> on whatever \<^verbatim>\<open>parseShortcutsFromYml\<close> returned. The result is
  the value it returns, as the entries of that value and whether the value is
  \<^verbatim>\<open>undefined\<close> or \<^verbatim>\<open>null\<close>:

  \<^item> for a mapping, the mapping with its bare strings normalised;
  \<^item> for a string that is not empty, nothing: the loop runs over the indices of the
    string, every \<^verbatim>\<open>shortcuts[key]\<close> is a string, and the assignment
    \<^verbatim>\<open>shortcuts[key] = {url: url}\<close> to a property of a primitive string throws a
    TypeError in strict mode, at the first index and before anything is logged;
  \<^item> for the empty string and for a value without enumerable properties, that value:
    the loop does nothing; the value has no keys, and reading a key of it gives
    \<^verbatim>\<open>undefined\<close> or an inherited value without own properties, as reading a missing
    key of a mapping does, so it is kept as the mapping without entries;
  \<^item> for \<^verbatim>\<open>undefined\<close> and \<^verbatim>\<open>null\<close>, that value: the loop does nothing.
\<close>

definition verifyDocument ::
  "document \<Rightarrow> string option \<Rightarrow> env \<Rightarrow> exn + ((shortcuts \<times> bool) \<times> env)" where
  "verifyDocument doc namespaceName this =
     (case doc of
        Mapping entries \<Rightarrow>
          (let (verified, this1) = verifyShortcuts entries namespaceName this
           in Inr ((verified, False), this1))
      | Text s \<Rightarrow> if s = [] then Inr (([], False), this) else Inl TypeError
      | Keyless \<Rightarrow> Inr (([], False), this)
      | Nothing \<Rightarrow> Inr (([], True), this))"

section \<open>Collection Fetcher\<close>

text \<open>\<^verbatim>\<open>startFetches\<close>: one fetch per descriptor with a URL, stored in the
  \<^verbatim>\<open>promises\<close> array at the descriptor's priority.\<close>

definition startFetches :: "(string \<times> nsinfo) list \<Rightarrow> (int \<times> string) list" where
  "startFetches namespaceInfos =
     fold (\<lambda>(nm, namespaceInfo) promises.
             (case url namespaceInfo of
                None \<Rightarrow> promises
              | Some u \<Rightarrow> if u = [] then promises
                          else AList.update (priority namespaceInfo) u promises))
          namespaceInfos []"

text \<open>\<^verbatim>\<open>await Promise.all(promises)\<close>, the fetches taken in the order in which they
  settle: the first rejection rejects the whole, otherwise each response is stored at the
  index of its promise.\<close>

fun promiseAll ::
  "(string \<Rightarrow> fetched) \<Rightarrow> (int \<times> string) list \<Rightarrow> (int \<rightharpoonup> response) \<Rightarrow> exn + (int \<rightharpoonup> response)" where
  "promiseAll fetch [] responses = Inr responses"
| "promiseAll fetch ((i, u) # settling) responses =
     (case fetch u of
        Rejected \<Rightarrow> Inl NetworkError
      | Fulfilled r \<Rightarrow> promiseAll fetch settling (responses(i \<mapsto> r)))"

definition cacheWord :: "bool \<Rightarrow> string" where
  "cacheWord reload = (if reload then ''reload '' else ''cache  '')"

definition logSuccess :: "bool \<Rightarrow> bool \<Rightarrow> response \<Rightarrow> env \<Rightarrow> env" where
  "logSuccess debug reload resp this =
     (if debug then helperLog (cacheWord reload @ ''Success: '' @ responseUrl resp) this
      else helperLog ''.'' this)"

text \<open>\<^verbatim>\<open>parseShortcutsFromYml\<close> returns what the parser returned, and the empty array
  \<^verbatim>\<open>[]\<close> when the parser threw.\<close>

definition parseShortcutsFromYml ::
  "world \<Rightarrow> string \<Rightarrow> string option \<Rightarrow> env \<Rightarrow> document \<times> env" where
  "parseShortcutsFromYml w text u this =
     (case yamlLoad w text of
        Document doc \<Rightarrow> (doc, this)
      | YamlError msg \<Rightarrow>
          (Mapping [],
           (helperLog (''Error parsing '' @ strOrUndefined u @ '':'' @ newline @ newline @ msg)
              this) \<lparr> this_error := True \<rparr>))"

text \<open>The body of the loop over the descriptors in \<^verbatim>\<open>fetchShortcuts\<close>. A response that
  is missing or has another status than 200 gives the empty array \<^verbatim>\<open>[]\<close>.\<close>

definition fetchedShortcuts ::
  "world \<Rightarrow> bool \<Rightarrow> bool \<Rightarrow> (int \<rightharpoonup> response) \<Rightarrow> nsinfo \<Rightarrow> env \<Rightarrow> exn + (nsinfo \<times> env)" where
  "fetchedShortcuts w reload debug responses namespaceInfo this =
     (let failed =
            Inr (namespaceInfo \<lparr> shortcuts := [], nullish := False \<rparr>,
                 if debug
                 then helperLog (cacheWord reload @ ''Fail:    '' @ strOrUndefined (url namespaceInfo)) this
                 else this)
      in case responses (priority namespaceInfo) of
           None \<Rightarrow> failed
         | Some resp \<Rightarrow>
             if status resp \<noteq> 200 then failed
             else (let this1 = logSuccess debug reload resp this;
                       (doc, this2) = parseShortcutsFromYml w (body resp) (url namespaceInfo) this1
                   in case verifyDocument doc (name namespaceInfo) this2 of
                        Inl e \<Rightarrow> Inl e
                      | Inr ((verified, undefinedOrNull), this3) \<Rightarrow>
                          Inr (namespaceInfo \<lparr> shortcuts := verified,
                                               nullish := undefinedOrNull \<rparr>, this3)))"

fun fetchLoop ::
  "world \<Rightarrow> bool \<Rightarrow> bool \<Rightarrow> (int \<rightharpoonup> response) \<Rightarrow> (string \<times> nsinfo) list \<Rightarrow> env \<Rightarrow>
   exn + ((string \<times> nsinfo) list \<times> env)" where
  "fetchLoop w reload debug responses [] this = Inr ([], this)"
| "fetchLoop w reload debug responses ((nm, namespaceInfo) # rest) this =
     (case fetchedShortcuts w reload debug responses namespaceInfo this of
        Inl e \<Rightarrow> Inl e
      | Inr (namespaceInfo1, this1) \<Rightarrow>
          (case fetchLoop w reload debug responses rest this1 of
             Inl e \<Rightarrow> Inl e
           | Inr (rest1, this2) \<Rightarrow> Inr ((nm, namespaceInfo1) # rest1, this2)))"

text \<open>\<^verbatim>\<open>fetchShortcuts\<close> rejects with the first rejection among the fetches, or with what
  the loop throws; nothing in it catches either.\<close>

definition fetchShortcuts ::
  "world \<Rightarrow> nsspec list \<Rightarrow> bool \<Rightarrow> bool \<Rightarrow> env \<Rightarrow> exn + ((string \<times> nsinfo) list \<times> env)" where
  "fetchShortcuts w namespaces reload debug this =
     (let namespaceInfos = getInitialNamespaceInfos (this_github this) namespaces;
          promises = startFetches namespaceInfos
      in case promiseAll (\<lambda>u. net w u reload) (settleOrder w promises) Map.empty of
           Inl e \<Rightarrow> Inl e
         | Inr responses \<Rightarrow> fetchLoop w reload debug responses namespaceInfos this)"

section \<open>Include Resolver\<close>

text \<open>
  Entries are objects that are changed in place, and the \<^verbatim>\<open>shortcuts\<close> that
  \<^verbatim>\<open>addIncludes\<close> receives is the mapping of one descriptor of \<^verbatim>\<open>namespaceInfos\<close>. So
  the map of descriptors is the store, an entry is addressed by the name of its namespace
  and its key, and \<open>addIncludes\<close> takes the name of the namespace whose mapping it walks.
\<close>

definition lookupShortcut :: "(string \<times> nsinfo) list \<Rightarrow> string \<Rightarrow> string \<Rightarrow> shortcut option" where
  "lookupShortcut namespaceInfos ns k =
     (case map_of namespaceInfos ns of
        None \<Rightarrow> None
      | Some d \<Rightarrow> map_of (shortcuts d) k)"

definition storeShortcut ::
  "(string \<times> nsinfo) list \<Rightarrow> string \<Rightarrow> string \<Rightarrow> shortcut \<Rightarrow> (string \<times> nsinfo) list" where
  "storeShortcut namespaceInfos ns k e =
     (case map_of namespaceInfos ns of
        None \<Rightarrow> namespaceInfos
      | Some d \<Rightarrow> AList.update ns (d \<lparr> shortcuts := AList.update k e (shortcuts d) \<rparr>) namespaceInfos)"

text \<open>The names every plain object inherits from \<^verbatim>\<open>Object.prototype\<close>: \<^verbatim>\<open>obj[name]\<close> is
  truthy and \<^verbatim>\<open>name in obj\<close> holds for them although the object has no such property.\<close>

definition objectPrototypeKeys :: "string list" where
  "objectPrototypeKeys =
     [''constructor'', ''__defineGetter__'', ''__defineSetter__'', ''hasOwnProperty'',
      ''__lookupGetter__'', ''__lookupSetter__'', ''isPrototypeOf'', ''propertyIsEnumerable'',
      ''toString'', ''valueOf'', ''__proto__'', ''toLocaleString'']"

text \<open>\<^verbatim>\<open>Object.assign(namespaceInfos, newNamespaceInfos)\<close>.\<close>

definition assignInfos ::
  "(string \<times> nsinfo) list \<Rightarrow> (string \<times> nsinfo) list \<Rightarrow> (string \<times> nsinfo) list" where
  "assignInfos namespaceInfos newNamespaceInfos =
     fold (\<lambda>(n, d) m. AList.update n d m) newNamespaceInfos namespaceInfos"

text \<open>
  \<^verbatim>\<open>await getShortcutFromNamespace(key, namespaceName, namespaceInfos)\<close>. The last line
  reads \<^verbatim>\<open>namespaceInfos[namespaceName].shortcuts[key]\<close>, which throws a TypeError when
  the \<^verbatim>\<open>shortcuts\<close> of the namespace are \<^verbatim>\<open>undefined\<close> or \<^verbatim>\<open>null\<close>. A name that the
  map inherits from \<^verbatim>\<open>Object.prototype\<close> passes the test for a known namespace and then
  has no \<^verbatim>\<open>shortcuts\<close>. A namespace that is unknown and not a string is not a namespace
  the resolver can describe; the source ends in a TypeError there (a boolean at the
  assignment of \<^verbatim>\<open>name\<close> in strict mode, an array or object at the final lookup).
\<close>

definition getShortcutFromNamespace ::
  "world \<Rightarrow> jsval \<Rightarrow> jsval \<Rightarrow> (string \<times> nsinfo) list \<Rightarrow> env \<Rightarrow>
   exn + (shortcut option \<times> (string \<times> nsinfo) list \<times> env)" where
  "getShortcutFromNamespace w key namespaceName namespaceInfos this =
     (let ns = toStr namespaceName
      in if map_of namespaceInfos ns \<noteq> None
         then (case map_of namespaceInfos ns of
                 None \<Rightarrow> Inl TypeError
               | Some d \<Rightarrow>
                   if nullish d then Inl TypeError
                   else Inr (map_of (shortcuts d) (toStr key), namespaceInfos, this))
         else if ns \<in> set objectPrototypeKeys then Inl TypeError
         else (case namespaceName of
                 JStr s \<Rightarrow>
                   (case fetchShortcuts w [NsString s] (this_reload this) (this_debug this) this of
                      Inl e \<Rightarrow> Inl e
                    | Inr (newNamespaceInfos, this1) \<Rightarrow>
                        (let namespaceInfos1 = assignInfos namespaceInfos newNamespaceInfos
                         in case map_of namespaceInfos1 ns of
                              None \<Rightarrow> Inl TypeError
                            | Some d \<Rightarrow>
                                if nullish d then Inl TypeError
                                else Inr (map_of (shortcuts d) (toStr key), namespaceInfos1, this1)))
               | _ \<Rightarrow> Inl TypeError))"

text \<open>What the loop of \<^verbatim>\<open>addIncludes\<close> finds at an entry.\<close>

datatype directive =
    NoInclude
  | IncorrectInclude
  | IncludeKey jsval
  | IncludeFrom jsval jsval

definition includeOf :: "shortcut \<Rightarrow> directive" where
  "includeOf shortcut =
     (case map_of shortcut ''include'' of
        None \<Rightarrow> NoInclude
      | Some inc \<Rightarrow>
          if truthy inc
          then (if truthy (getProp inc ''key'')
                then (if truthy (getProp inc ''namespace'')
                      then IncludeFrom (getProp inc ''key'') (getProp inc ''namespace'')
                      else IncludeKey (getProp inc ''key''))
                else IncorrectInclude)
          else NoInclude)"

definition incorrectInclude :: "string \<Rightarrow> env \<Rightarrow> env" where
  "incorrectInclude key this =
     (helperLog (''Incorrect include found at '' @ key) this) \<lparr> this_error := True \<rparr>"

text \<open>One round of the loop of \<^verbatim>\<open>addIncludes\<close>, at \<open>key\<close> of the namespace \<open>nm\<close>, when
  the call is awaited where it stands.\<close>

definition includeStep ::
  "world \<Rightarrow> string \<Rightarrow> string \<Rightarrow> (string \<times> nsinfo) list \<Rightarrow> env \<Rightarrow>
   exn + ((string \<times> nsinfo) list \<times> env)" where
  "includeStep w nm key namespaceInfos this =
     (case lookupShortcut namespaceInfos nm key of
        None \<Rightarrow> Inr (namespaceInfos, this)
      | Some shortcut \<Rightarrow>
          (case includeOf shortcut of
             NoInclude \<Rightarrow> Inr (namespaceInfos, this)
           | IncorrectInclude \<Rightarrow> Inr (namespaceInfos, incorrectInclude key this)
           | IncludeKey k \<Rightarrow>
               Inr (storeShortcut namespaceInfos nm key
                      (assign shortcut (lookupShortcut namespaceInfos nm (toStr k))), this)
           | IncludeFrom k ns \<Rightarrow>
               (case getShortcutFromNamespace w k ns namespaceInfos this of
                  Inl e \<Rightarrow> Inl e
                | Inr (shortcutToInclude, namespaceInfos1, this1) \<Rightarrow>
                    Inr (storeShortcut namespaceInfos1 nm key (assign shortcut shortcutToInclude),
                         this1))))"

fun addIncludesLoop ::
  "world \<Rightarrow> string \<Rightarrow> string list \<Rightarrow> (string \<times> nsinfo) list \<Rightarrow> env \<Rightarrow>
   exn + ((string \<times> nsinfo) list \<times> env)" where
  "addIncludesLoop w nm [] namespaceInfos this = Inr (namespaceInfos, this)"
| "addIncludesLoop w nm (key # keys) namespaceInfos this =
     (case includeStep w nm key namespaceInfos this of
        Inl e \<Rightarrow> Inl e
      | Inr (namespaceInfos1, this1) \<Rightarrow> addIncludesLoop w nm keys namespaceInfos1 this1)"

definition keysOf :: "(string \<times> nsinfo) list \<Rightarrow> string \<Rightarrow> string list" where
  "keysOf namespaceInfos nm =
     (case map_of namespaceInfos nm of None \<Rightarrow> [] | Some d \<Rightarrow> map fst (shortcuts d))"

definition addIncludes ::
  "world \<Rightarrow> string \<Rightarrow> (string \<times> nsinfo) list \<Rightarrow> env \<Rightarrow> exn + ((string \<times> nsinfo) list \<times> env)" where
  "addIncludes w nm namespaceInfos this =
     addIncludesLoop w nm (keysOf namespaceInfos nm) namespaceInfos this"

section \<open>Reachability Annotator\<close>

definition isSubscribed :: "nsinfo \<Rightarrow> bool" where
  "isSubscribed namespaceInfo = (priority namespaceInfo \<noteq> 0 \<and> priority namespaceInfo > 0)"

text \<open>\<^verbatim>\<open>key.split(' ')\<close> and the element of an array at an index, \<^verbatim>\<open>undefined\<close> past
  its end.\<close>

fun splitOn :: "char \<Rightarrow> string \<Rightarrow> string list" where
  "splitOn c [] = [[]]"
| "splitOn c (x # xs) =
     (if x = c then [] # splitOn c xs
      else (case splitOn c xs of
              [] \<Rightarrow> [[x]]
            | part # parts \<Rightarrow> (x # part) # parts))"

definition element :: "string list \<Rightarrow> nat \<Rightarrow> jsval" where
  "element parts i = (if i < length parts then JStr (parts ! i) else JUndefined)"

definition propOf :: "shortcut \<Rightarrow> string \<Rightarrow> jsval" where
  "propOf shortcut p = (case map_of shortcut p of None \<Rightarrow> JUndefined | Some v \<Rightarrow> v)"

definition addInfoToShortcut :: "world \<Rightarrow> shortcut \<Rightarrow> string \<Rightarrow> nsinfo \<Rightarrow> shortcut" where
  "addInfoToShortcut w shortcut key namespaceInfo =
     (let s1 = AList.update ''key'' (JStr key) shortcut;
          s2 = AList.update ''keyword'' (element (splitOn (CHR 0x20) key) 0) s1;
          s3 = AList.update ''argumentCount'' (element (splitOn (CHR 0x20) key) 1) s2;
          s4 = AList.update ''namespace''
                 (case name namespaceInfo of None \<Rightarrow> JUndefined | Some n \<Rightarrow> JStr n) s3;
          s5 = AList.update ''arguments'' (getArgumentsFromString w (propOf s4 ''url'')) s4
      in AList.update ''title''
           (if truthy (propOf s5 ''title'') then propOf s5 ''title'' else JStr []) s5)"

text \<open>The loop over the keys of one namespace. \<open>found\<close> holds the names for which
  \<^verbatim>\<open>key in foundShortcuts\<close> is true.\<close>

fun annotate :: "world \<Rightarrow> nsinfo \<Rightarrow> shortcuts \<Rightarrow> string list \<Rightarrow> shortcuts \<times> string list" where
  "annotate w namespaceInfo [] found = ([], found)"
| "annotate w namespaceInfo ((key, shortcut) # rest) found =
     (let shortcut1 = addInfoToShortcut w shortcut key namespaceInfo;
          shortcut2 = AList.update ''reachable'' (JBool (key \<notin> set found)) shortcut1;
          (rest1, found1) = annotate w namespaceInfo rest (key # found)
      in ((key, shortcut2) # rest1, found1))"

text \<open>The loop over the descriptors, most precedent first.\<close>

fun visit ::
  "world \<Rightarrow> (string \<times> nsinfo) list \<Rightarrow> (string \<times> nsinfo) list \<Rightarrow> string list \<Rightarrow>
   (string \<times> nsinfo) list" where
  "visit w [] namespaceInfos found = namespaceInfos"
| "visit w ((nm, namespaceInfo) # rest) namespaceInfos found =
     (if \<not> isSubscribed namespaceInfo then visit w rest namespaceInfos found
      else (let (annotated, found1) = annotate w namespaceInfo (shortcuts namespaceInfo) found
            in visit w rest
                 (AList.update nm (namespaceInfo \<lparr> shortcuts := annotated \<rparr>) namespaceInfos)
                 found1))"

text \<open>\<^verbatim>\<open>Array.prototype.sort\<close> is stable; the comparator puts the higher priority
  first. \<^verbatim>\<open>foundShortcuts\<close> starts as the empty object.\<close>

definition addReachable :: "world \<Rightarrow> (string \<times> nsinfo) list \<Rightarrow> (string \<times> nsinfo) list" where
  "addReachable w namespaceInfos =
     visit w (sort_key (\<lambda>(nm, namespaceInfo). - priority namespaceInfo) namespaceInfos)
       namespaceInfos objectPrototypeKeys"

section \<open>Environment\<close>

text \<open>
  \<^verbatim>\<open>getNamespaceInfos\<close> awaits the value of \<^verbatim>\<open>forEach\<close>, which is \<^verbatim>\<open>undefined\<close>: the
  promises of the asynchronous callbacks are dropped. Each callback runs, within
  \<^verbatim>\<open>forEach\<close>, up to its first \<^verbatim>\<open>await\<close>, which is the first include with a namespace in
  \<^verbatim>\<open>addIncludes\<close>. Where the namespace is known, that \<^verbatim>\<open>await\<close> is on a promise that is
  already fulfilled, so its continuation is queued before the continuation of
  \<^verbatim>\<open>getNamespaceInfos\<close> (queued by \<^verbatim>\<open>await undefined\<close>) and runs up to the next such
  \<^verbatim>\<open>await\<close>, whose continuation comes after. Where the namespace is unknown, the callback
  waits for a fetch, which settles in a later task. \<^verbatim>\<open>addReachable\<close> runs in the
  continuation of \<^verbatim>\<open>getNamespaceInfos\<close>, and the map is returned. The result is the
  map as it is at that return. The callbacks that are still waiting then (for a fetch,
  or for their next include from a known namespace) change the same object afterwards.
\<close>

datatype pause =
    Finished
  | Resolved string "string list" string string
  | Stalled

text \<open>\<^verbatim>\<open>addIncludes\<close> up to its next \<^verbatim>\<open>await\<close>. \<open>Resolved key keys ns k\<close>: the loop
  stands at \<open>key\<close>, with \<open>keys\<close> to come, and awaits the entry at \<open>k\<close> of the known
  namespace \<open>ns\<close>. \<open>Stalled\<close>: it awaits a fetch, or a promise that is rejected (the
  namespace is known and its \<^verbatim>\<open>shortcuts\<close> are \<^verbatim>\<open>undefined\<close> or \<^verbatim>\<open>null\<close>).\<close>

fun addIncludesUntilAwait ::
  "string \<Rightarrow> string list \<Rightarrow> (string \<times> nsinfo) list \<Rightarrow> env \<Rightarrow>
   ((string \<times> nsinfo) list \<times> env) \<times> pause" where
  "addIncludesUntilAwait nm [] namespaceInfos this = ((namespaceInfos, this), Finished)"
| "addIncludesUntilAwait nm (key # keys) namespaceInfos this =
     (case lookupShortcut namespaceInfos nm key of
        None \<Rightarrow> addIncludesUntilAwait nm keys namespaceInfos this
      | Some shortcut \<Rightarrow>
          (case includeOf shortcut of
             NoInclude \<Rightarrow> addIncludesUntilAwait nm keys namespaceInfos this
           | IncorrectInclude \<Rightarrow>
               addIncludesUntilAwait nm keys namespaceInfos (incorrectInclude key this)
           | IncludeKey k \<Rightarrow>
               addIncludesUntilAwait nm keys
                 (storeShortcut namespaceInfos nm key
                    (assign shortcut (lookupShortcut namespaceInfos nm (toStr k))))
                 this
           | IncludeFrom k ns \<Rightarrow>
               (case map_of namespaceInfos (toStr ns) of
                  None \<Rightarrow> ((namespaceInfos, this), Stalled)
                | Some d \<Rightarrow>
                    if nullish d then ((namespaceInfos, this), Stalled)
                    else ((namespaceInfos, this), Resolved key keys (toStr ns) (toStr k)))))"

text \<open>The synchronous part of \<^verbatim>\<open>Object.values(namespaceInfos).forEach(...)\<close>: the
  callbacks in the order of the map, each up to its first \<^verbatim>\<open>await\<close>.\<close>

fun startIncludes ::
  "string list \<Rightarrow> (string \<times> nsinfo) list \<Rightarrow> env \<Rightarrow>
   ((string \<times> nsinfo) list \<times> env) \<times> (string \<times> pause) list" where
  "startIncludes [] namespaceInfos this = ((namespaceInfos, this), [])"
| "startIncludes (nm # names) namespaceInfos this =
     (let ((namespaceInfos1, this1), p) =
            addIncludesUntilAwait nm (keysOf namespaceInfos nm) namespaceInfos this;
          ((namespaceInfos2, this2), ps) = startIncludes names namespaceInfos1 this1
      in ((namespaceInfos2, this2), (nm, p) # ps))"

text \<open>The continuations queued before that of \<^verbatim>\<open>getNamespaceInfos\<close>, in their order:
  each merges the entry it awaited and goes on up to the next \<^verbatim>\<open>await\<close>.\<close>

fun resumeIncludes ::
  "(string \<times> pause) list \<Rightarrow> (string \<times> nsinfo) list \<Rightarrow> env \<Rightarrow> (string \<times> nsinfo) list \<times> env" where
  "resumeIncludes [] namespaceInfos this = (namespaceInfos, this)"
| "resumeIncludes ((nm, Resolved key keys ns k) # ps) namespaceInfos this =
     (let merged =
            (case lookupShortcut namespaceInfos nm key of
               None \<Rightarrow> namespaceInfos
             | Some shortcut \<Rightarrow>
                 storeShortcut namespaceInfos nm key
                   (assign shortcut (lookupShortcut namespaceInfos ns k)));
          ((namespaceInfos1, this1), p) = addIncludesUntilAwait nm keys merged this
      in resumeIncludes ps namespaceInfos1 this1)"
| "resumeIncludes ((nm, p) # ps) namespaceInfos this = resumeIncludes ps namespaceInfos this"

definition getNamespaceInfos ::
  "world \<Rightarrow> nsspec list \<Rightarrow> bool \<Rightarrow> bool \<Rightarrow> env \<Rightarrow> exn + ((string \<times> nsinfo) list \<times> env)" where
  "getNamespaceInfos w namespaces reload debug this =
     (case fetchShortcuts w namespaces reload debug this of
        Inl e \<Rightarrow> Inl e
      | Inr (namespaceInfos, this1) \<Rightarrow>
          (let ((namespaceInfos1, this2), pauses) =
                 startIncludes (map fst namespaceInfos) namespaceInfos this1;
               (namespaceInfos2, this3) = resumeIncludes pauses namespaceInfos1 this2
           in Inr (addReachable w namespaceInfos2, this3)))"

text \<open>
  \<^verbatim>\<open>populate\<close> from the point where the parameters, the user's configuration, the parsed
  query and the defaults of language and country have been assigned to \<^verbatim>\<open>this\<close> (they
  come from collaborators that are not among the sources): the default of the namespace
  list, the extra namespace of the query, and the resolution. It resolves with
  \<^verbatim>\<open>this.namespaceInfos\<close> set, or rejects with what the resolution threw.
\<close>

record settings =
  language :: string
  country :: string
  namespaces :: "nsspec list option"
  extraNamespaceName :: "string option"

text \<open>The list that \<^verbatim>\<open>populate\<close> passes on: \<^verbatim>\<open>setDefaults\<close> fills in a missing list, and
  the extra namespace of the query is pushed onto it.\<close>

definition requestedNamespaces :: "settings \<Rightarrow> nsspec list" where
  "requestedNamespaces params =
     (let namespaces1 =
            (case namespaces params of
               None \<Rightarrow> [NsString ''o'', NsString (language params), NsString (''.'' @ country params)]
             | Some given \<Rightarrow> given)
      in if truthyStr (extraNamespaceName params)
         then namespaces1 @ [NsString (strOrUndefined (extraNamespaceName params))]
         else namespaces1)"

definition populate ::
  "world \<Rightarrow> settings \<Rightarrow> env \<Rightarrow> exn + ((string \<times> nsinfo) list \<times> env)" where
  "populate w params this =
     getNamespaceInfos w (requestedNamespaces params) (this_reload this) (this_debug this) this"

section \<open>Auxiliary definitions for the statements and proofs\<close>

text \<open>The fetches that \<open>startFetches\<close> starts, as a list: index in the \<^verbatim>\<open>promises\<close>
  array and URL, in the order of the descriptors.\<close>

fun promisesOf :: "(string \<times> nsinfo) list \<Rightarrow> (int \<times> string) list" where
  "promisesOf [] = []"
| "promisesOf ((n, d) # rest) =
     (case url d of None \<Rightarrow> promisesOf rest
      | Some u \<Rightarrow> if u = [] then promisesOf rest else (priority d, u) # promisesOf rest)"

text \<open>The response that the fetch of a descriptor's own URL settles with.\<close>

definition ownResponse :: "world \<Rightarrow> bool \<Rightarrow> nsinfo \<Rightarrow> response option" where
  "ownResponse w reload d =
     (case url d of
        None \<Rightarrow> None
      | Some u \<Rightarrow> if u = [] then None
                  else (case net w u reload of Rejected \<Rightarrow> None | Fulfilled r \<Rightarrow> Some r))"

text \<open>What the loop of \<^verbatim>\<open>fetchShortcuts\<close> makes of the response of a descriptor's
  fetch: whether \<^verbatim>\<open>verifyShortcuts\<close> throws, and otherwise the entries of the shortcuts
  and whether they are \<^verbatim>\<open>undefined\<close> or \<^verbatim>\<open>null\<close>.\<close>

definition verifyThrows :: "world \<Rightarrow> response option \<Rightarrow> bool" where
  "verifyThrows w resp =
     (case resp of
        None \<Rightarrow> False
      | Some r \<Rightarrow>
          status r = 200 \<and>
          (case yamlLoad w (body r) of Document (Text s) \<Rightarrow> s \<noteq> [] | _ \<Rightarrow> False))"

definition loadedShortcuts :: "world \<Rightarrow> response option \<Rightarrow> shortcuts \<times> bool" where
  "loadedShortcuts w resp =
     (case resp of
        None \<Rightarrow> ([], False)
      | Some r \<Rightarrow>
          if status r \<noteq> 200 then ([], False)
          else (case yamlLoad w (body r) of
                  Document (Mapping doc) \<Rightarrow> (map (\<lambda>(k, v). (k, normalizeRaw v)) doc, False)
                | Document Nothing \<Rightarrow> ([], True)
                | _ \<Rightarrow> ([], False)))"

definition filled :: "world \<Rightarrow> response option \<Rightarrow> nsinfo \<Rightarrow> nsinfo" where
  "filled w resp d =
     d \<lparr> shortcuts := fst (loadedShortcuts w resp), nullish := snd (loadedShortcuts w resp) \<rparr>"

text \<open>
  Fixtures for the closed examples: a network given by a table from URL to status and
  body (a URL outside the table is unreachable: its fetch rejects), a parser given by a
  table from text to document (a text outside the table does not parse), fetches that
  settle in the reverse of the order in which they were started, and a fresh
  \<^verbatim>\<open>this\<close>.
\<close>

definition testWorld ::
  "(string \<times> int \<times> string) list \<Rightarrow> (string \<times> (string \<times> raw) list) list \<Rightarrow> world" where
  "testWorld pages docs =
     \<lparr> net = (\<lambda>u reload. case map_of pages u of
                             None \<Rightarrow> Rejected
                           | Some (st, b) \<Rightarrow> Fulfilled \<lparr> status = st, responseUrl = u, body = b \<rparr>),
       yamlLoad = (\<lambda>text. case map_of docs text of
                            None \<Rightarrow> YamlError ''unparsable''
                          | Some doc \<Rightarrow> Document (Mapping doc)),
       getArgumentsFromString = (\<lambda>v. JObj []),
       settleOrder = rev \<rparr>"

definition freshThis :: env where
  "freshThis =
     \<lparr> this_github = None, this_reload = False, this_debug = False, this_error = False,
       logged = [] \<rparr>"

definition siteUrl :: "string \<Rightarrow> string" where
  "siteUrl s = ''https://data.trovu.net/data/shortcuts/'' @ s @ ''.yml''"

definition githubUrl :: "string \<Rightarrow> string" where
  "githubUrl s = ''https://raw.githubusercontent.com/'' @ s @ ''/trovu-data-user/master/shortcuts.yml''"

text \<open>The descriptors as \<open>visit\<close> leaves them, in the order of the visit.\<close>

fun visited :: "world \<Rightarrow> (string \<times> nsinfo) list \<Rightarrow> string list \<Rightarrow> (string \<times> nsinfo) list" where
  "visited w [] found = []"
| "visited w ((nm, namespaceInfo) # rest) found =
     (if \<not> isSubscribed namespaceInfo then (nm, namespaceInfo) # visited w rest found
      else (nm, namespaceInfo \<lparr> shortcuts := fst (annotate w namespaceInfo (shortcuts namespaceInfo) found) \<rparr>)
             # visited w rest (snd (annotate w namespaceInfo (shortcuts namespaceInfo) found)))"

text \<open>A site namespace with a given priority and shortcut mapping.\<close>

definition siteNamespace :: "string \<Rightarrow> int \<Rightarrow> shortcuts \<Rightarrow> string \<times> nsinfo" where
  "siteNamespace n p sc =
     (n, (addFetchUrlToSiteNamespace n) \<lparr> priority := p, shortcuts := sc, nullish := False \<rparr>)"

text \<open>A world like \<open>testWorld\<close> whose parser is given by a table from text to what
  \<^verbatim>\<open>jsyaml.load\<close> makes of it. Outside the table the empty text loads as
  \<^verbatim>\<open>undefined\<close>, and any other text is a plain scalar and loads as the string it is.\<close>

definition loadWorld :: "(string \<times> int \<times> string) list \<Rightarrow> (string \<times> parsed) list \<Rightarrow> world" where
  "loadWorld pages loads =
     (testWorld pages [])
       \<lparr> yamlLoad := (\<lambda>text. case map_of loads text of
                                  None \<Rightarrow> if text = [] then Document Nothing
                                          else Document (Text text)
                                | Some p \<Rightarrow> p) \<rparr>"

text \<open>The entry that the include directive of an entry of the namespace \<open>nm\<close> names in a
  map of descriptors, if there is one.\<close>

definition includeTarget :: "(string \<times> nsinfo) list \<Rightarrow> string \<Rightarrow> shortcut \<Rightarrow> shortcut option" where
  "includeTarget namespaceInfos nm shortcut =
     (case includeOf shortcut of
        IncludeKey k \<Rightarrow> lookupShortcut namespaceInfos nm (toStr k)
      | IncludeFrom k ns \<Rightarrow> lookupShortcut namespaceInfos (toStr ns) (toStr k)
      | _ \<Rightarrow> None)"

text \<open>Every descriptor that is known stays as it is.\<close>

definition keepsKnown :: "(string \<times> nsinfo) list \<Rightarrow> (string \<times> nsinfo) list \<Rightarrow> bool" where
  "keepsKnown infos infos' = (\<forall>n. map_of infos n \<noteq> None \<longrightarrow> map_of infos' n = map_of infos n)"

text \<open>What a run of the loop of \<^verbatim>\<open>addIncludes\<close> can do to the map of descriptors: a
  known namespace stays known, an entry stays where it is and changes only if it has an
  \<^verbatim>\<open>include\<close> field, which it keeps, and no entry joins a known namespace.\<close>

definition evolves :: "(string \<times> nsinfo) list \<Rightarrow> (string \<times> nsinfo) list \<Rightarrow> bool" where
  "evolves infos infos' =
     ((\<forall>n. map_of infos n \<noteq> None \<longrightarrow> map_of infos' n \<noteq> None) \<and>
      (\<forall>n k x. lookupShortcut infos n k = Some x \<longrightarrow>
         (\<exists>x'. lookupShortcut infos' n k = Some x' \<and>
               (x' = x \<or> (map_of x ''include'' \<noteq> None \<and> map_of x' ''include'' \<noteq> None)))) \<and>
      (\<forall>n k. map_of infos n \<noteq> None \<and> lookupShortcut infos n k = None \<longrightarrow>
         lookupShortcut infos' n k = None))"

text \<open>A namespace in whose shortcuts a key can be read: it is known, and its shortcuts
  are neither \<^verbatim>\<open>undefined\<close> nor \<^verbatim>\<open>null\<close>.\<close>

definition readable :: "(string \<times> nsinfo) list \<Rightarrow> string \<Rightarrow> bool" where
  "readable infos n = (case map_of infos n of None \<Rightarrow> False | Some d \<Rightarrow> \<not> nullish d)"

text \<open>An entry on which a round of the loop changes nothing: a key can be read in the
  namespace its include names, and the fields of the include target are already its
  own.\<close>

definition settledEntry :: "(string \<times> nsinfo) list \<Rightarrow> string \<Rightarrow> shortcut \<Rightarrow> bool" where
  "settledEntry infos nm e =
     ((\<forall>k ns. includeOf e = IncludeFrom k ns \<longrightarrow> readable infos (toStr ns)) \<and>
      assign e (includeTarget infos nm e) = e)"

section \<open>Theorems\<close>

subsection \<open>Property lists\<close>

text \<open>The equations that evaluate the fetch step on a closed input.\<close>

lemmas eval_defs = fetchShortcuts_def getInitialNamespaceInfos_def startFetches_def
  fetchedShortcuts_def parseShortcutsFromYml_def verifyDocument_def verifyShortcuts_def
  logSuccess_def
  helperLog_def testWorld_def freshThis_def siteUrl_def githubUrl_def
  addFetchUrlToSiteNamespace_def addFetchUrlToGithubNamespace_def normalizeRaw_def
  cacheWord_def Let_def enumerate_eq_zip isDigit_def isWhitespace_def loadWorld_def

lemma map_of_fold_update:
  "map_of (fold (\<lambda>(k, v) m. AList.update k v m) es acc) = map_of acc ++ map_of (rev es)"
proof (induction es arbitrary: acc)
  case Nil
  then show ?case by simp
next
  case (Cons e es)
  obtain k v where e: "e = (k, v)" by (cases e)
  show ?case
    by (simp add: e Cons.IH update_conv' map_of_append) (simp add: map_add_def fun_eq_iff split: option.splits)
qed

lemma distinct_fold_update:
  "distinct (map fst acc) \<Longrightarrow> distinct (map fst (fold (\<lambda>(k, v) m. AList.update k v m) es acc))"
  by (induction es arbitrary: acc) (auto simp: distinct_update)

lemma set_fold_update:
  "set (fold (\<lambda>(k, v) m. AList.update k v m) es acc) \<subseteq> set es \<union> set acc"
proof (induction es arbitrary: acc)
  case Nil
  then show ?case by simp
next
  case (Cons e es)
  obtain k v where e: "e = (k, v)" by (cases e)
  have "set (AList.update k v acc) \<subseteq> insert (k, v) (set acc)"
    by (induction acc) auto
  with Cons.IH[of "AList.update k v acc"] show ?case
    by (auto simp: e)
qed

text \<open>The equations that evaluate the session on a closed input.\<close>

lemmas session_defs = populate_def requestedNamespaces_def getNamespaceInfos_def keysOf_def
  addReachable_def isSubscribed_def lookupShortcut_def storeShortcut_def includeOf_def
  assign_def addInfoToShortcut_def propOf_def element_def objectPrototypeKeys_def
  incorrectInclude_def

text \<open>The equations that evaluate an include on a closed input.\<close>

lemmas include_defs = includeStep_def addIncludes_def keysOf_def lookupShortcut_def
  storeShortcut_def includeOf_def assign_def siteNamespace_def addFetchUrlToSiteNamespace_def
  freshThis_def incorrectInclude_def helperLog_def

text \<open>The equations that evaluate the annotation on a closed input.\<close>

lemmas reach_defs = addReachable_def isSubscribed_def addInfoToShortcut_def propOf_def
  element_def objectPrototypeKeys_def siteNamespace_def addFetchUrlToSiteNamespace_def
  testWorld_def Let_def

subsection \<open>Namespace Resolver\<close>

text \<open>
  C6 (as amended). Classification of a namespace of the caller's list, first match first.
  A string of fewer than 4 code units becomes a descriptor of type \<open>site\<close> whose URL is the
  identifier between the site base URL and \<open>.yml\<close>. An object with a non-empty \<open>url\<close> and
  a non-empty \<open>name\<close> is kept as it is and gets the type \<open>user\<close>. Everything else also
  gets the type \<open>user\<close>: the account \<open>.\<close> is replaced by the caller's account, the name
  defaults to the account, and the URL is the account between the two halves of the
  per-account template. The source has the two type tags \<open>site\<close> and \<open>user\<close> only.
\<close>

theorem getInitalNamespaceInfo_classified:
  "(length s < 4 \<longrightarrow>
      getInitalNamespaceInfo thisGithub (NsString s) =
        \<lparr> name = Some s, type = Some ''site'',
          url = Some (''https://data.trovu.net/data/shortcuts/'' @ s @ ''.yml''),
          github = None, priority = 0, shortcuts = [], nullish = True \<rparr>) \<and>
   (truthyStr u \<and> truthyStr nm \<longrightarrow>
      getInitalNamespaceInfo thisGithub (NsObject u nm gh) =
        \<lparr> name = nm, type = Some ''user'', url = u, github = gh,
          priority = 0, shortcuts = [], nullish = True \<rparr>) \<and>
   (\<not> length s < 4 \<longrightarrow>
      getInitalNamespaceInfo thisGithub (NsString s) =
        \<lparr> name = Some s, type = Some ''user'',
          url = Some (''https://raw.githubusercontent.com/'' @ s @
                      ''/trovu-data-user/master/shortcuts.yml''),
          github = Some s, priority = 0, shortcuts = [], nullish = True \<rparr>) \<and>
   (\<not> (truthyStr u \<and> truthyStr nm) \<longrightarrow>
      getInitalNamespaceInfo thisGithub (NsObject u nm gh) =
        \<lparr> name = (if truthyStr nm then nm
                  else if gh = Some ''.'' then thisGithub else gh),
          type = Some ''user'',
          url = Some (''https://raw.githubusercontent.com/'' @
                      strOrUndefined (if gh = Some ''.'' then thisGithub else gh) @
                      ''/trovu-data-user/master/shortcuts.yml''),
          github = (if gh = Some ''.'' then thisGithub else gh),
          priority = 0, shortcuts = [], nullish = True \<rparr>)"
  by (simp add: addFetchUrlToSiteNamespace_def addFetchUrlToGithubNamespace_def Let_def)

theorem getInitalNamespaceInfo_classified_witness:
  "getInitalNamespaceInfo (Some ''jane'') (NsString ''o'') =
     \<lparr> name = Some ''o'', type = Some ''site'',
       url = Some ''https://data.trovu.net/data/shortcuts/o.yml'',
       github = None, priority = 0, shortcuts = [], nullish = True \<rparr> \<and>
   getInitalNamespaceInfo (Some ''jane'')
       (NsObject (Some ''https://example.com/s.yml'') (Some ''mine'') None) =
     \<lparr> name = Some ''mine'', type = Some ''user'', url = Some ''https://example.com/s.yml'',
       github = None, priority = 0, shortcuts = [], nullish = True \<rparr> \<and>
   getInitalNamespaceInfo (Some ''jane'') (NsObject None None (Some ''.'')) =
     \<lparr> name = Some ''jane'', type = Some ''user'',
       url = Some ''https://raw.githubusercontent.com/jane/trovu-data-user/master/shortcuts.yml'',
       github = Some ''jane'', priority = 0, shortcuts = [], nullish = True \<rparr>"
  using getInitalNamespaceInfo_classified
          [of "''o''" "Some ''jane''" "Some ''https://example.com/s.yml''" "Some ''mine''" None]
        getInitalNamespaceInfo_classified
          [of "''o''" "Some ''jane''" None None "Some ''.''"]
  by simp

text \<open>The claim as stated names the type tags \<open>user-url\<close> and \<open>user-github\<close>; the source
  tags both kinds \<open>user\<close>.\<close>

theorem getInitalNamespaceInfo_type_tags_counterexample:
  "type (getInitalNamespaceInfo None
           (NsObject (Some ''https://example.com/s.yml'') (Some ''mine'') None)) = Some ''user'' \<and>
   type (getInitalNamespaceInfo None
           (NsObject (Some ''https://example.com/s.yml'') (Some ''mine'') None)) \<noteq> Some ''user-url'' \<and>
   type (getInitalNamespaceInfo None (NsString ''johndoe'')) = Some ''user'' \<and>
   type (getInitalNamespaceInfo None (NsString ''johndoe'')) \<noteq> Some ''user-github''"
  by (simp add: addFetchUrlToGithubNamespace_def Let_def)

subsection \<open>Shortcut Verifier\<close>

lemma verifyShortcuts_keys: "map fst (fst (verifyShortcuts doc nm this)) = map fst doc"
  by (simp add: verifyShortcuts_def Let_def case_prod_beta comp_def)

lemma verifyShortcuts_entries:
  "fst (verifyShortcuts doc nm this) = map (\<lambda>(k, v). (k, normalizeRaw v)) doc"
  by (simp add: verifyShortcuts_def Let_def)

text \<open>
  C4 (as amended). \<open>verifyShortcuts\<close> removes nothing: the mapping it returns has the
  keys of the document in their order, each bare string turned into an entry with only a
  \<open>url\<close>. The keys in which no non-whitespace code unit is followed by a space and a
  digit are listed in one diagnostic for the namespace, and the error flag is set; when
  every key matches, nothing is logged and the flag is untouched. A key whose argument
  count is not a digit, such as \<open>foo *\<close>, does not match.
\<close>

theorem verifyShortcuts_reports_and_keeps:
  "map fst (fst (verifyShortcuts doc nm this)) = map fst doc \<and>
   fst (verifyShortcuts doc nm this) = map (\<lambda>(k, v). (k, normalizeRaw v)) doc \<and>
   ((\<exists>k \<in> set (map fst doc). \<not> matchesKeyPattern k) \<longrightarrow>
      snd (verifyShortcuts doc nm this) =
        this \<lparr> this_error := True,
               logged := logged this @
                 [incorrectKeysMessage nm (filter (\<lambda>k. \<not> matchesKeyPattern k) (map fst doc))] \<rparr>) \<and>
   ((\<forall>k \<in> set (map fst doc). matchesKeyPattern k) \<longrightarrow>
      snd (verifyShortcuts doc nm this) = this) \<and>
   \<not> matchesKeyPattern ''foo *''"
proof -
  let ?bad = "filter (\<lambda>k. \<not> matchesKeyPattern k) (map fst doc)"
  have bad: "(\<exists>k \<in> set (map fst doc). \<not> matchesKeyPattern k) \<longleftrightarrow> ?bad \<noteq> []"
    by (simp add: filter_empty_conv)
  have reported: "?bad \<noteq> [] \<Longrightarrow>
      snd (verifyShortcuts doc nm this) =
        this \<lparr> this_error := True, logged := logged this @ [incorrectKeysMessage nm ?bad] \<rparr>"
    by (simp add: verifyShortcuts_def Let_def helperLog_def)
  have silent: "?bad = [] \<Longrightarrow> snd (verifyShortcuts doc nm this) = this"
    by (simp add: verifyShortcuts_def Let_def)
  have wildcard: "\<not> matchesKeyPattern ''foo *''"
    by (simp add: isDigit_def)
  from bad reported silent wildcard verifyShortcuts_keys verifyShortcuts_entries
  show ?thesis by (metis (lifting))
qed

theorem verifyShortcuts_reports_and_keeps_witness:
  "map fst (fst (verifyShortcuts
       [(''g 1'', Bare ''https://g.example/{%q}''), (''foo *'', Full [(''title'', JStr ''T'')])]
       (Some ''o'')
       \<lparr> this_github = None, this_reload = False, this_debug = False, this_error = False,
         logged = [] \<rparr>)) = [''g 1'', ''foo *''] \<and>
   snd (verifyShortcuts
       [(''g 1'', Bare ''https://g.example/{%q}''), (''foo *'', Full [(''title'', JStr ''T'')])]
       (Some ''o'')
       \<lparr> this_github = None, this_reload = False, this_debug = False, this_error = False,
         logged = [] \<rparr>) =
     \<lparr> this_github = None, this_reload = False, this_debug = False, this_error = True,
       logged = [incorrectKeysMessage (Some ''o'') [''foo *'']] \<rparr> \<and>
   snd (verifyShortcuts [(''g 1'', Bare ''https://g.example/{%q}'')] (Some ''o'')
       \<lparr> this_github = None, this_reload = False, this_debug = False, this_error = False,
         logged = [] \<rparr>) =
     \<lparr> this_github = None, this_reload = False, this_debug = False, this_error = False,
       logged = [] \<rparr>"
  using verifyShortcuts_reports_and_keeps
          [of "[(''g 1'', Bare ''https://g.example/{%q}''), (''foo *'', Full [(''title'', JStr ''T'')])]"
              "Some ''o''"
              "\<lparr> this_github = None, this_reload = False, this_debug = False,
                 this_error = False, logged = [] \<rparr>"]
        verifyShortcuts_reports_and_keeps
          [of "[(''g 1'', Bare ''https://g.example/{%q}'')]"
              "Some ''o''"
              "\<lparr> this_github = None, this_reload = False, this_debug = False,
                 this_error = False, logged = [] \<rparr>"]
  by (simp add: isDigit_def isWhitespace_def)

text \<open>The claim as stated has the entry with a malformed key excluded and the wildcard
  key kept without a diagnostic; \<open>verifyShortcuts\<close> keeps the entry under \<open>foo\<close> and
  reports the key \<open>foo *\<close>.\<close>

theorem verifyShortcuts_excludes_nothing_counterexample:
  "fst (verifyShortcuts [(''foo'', Bare ''https://example.com/'')] (Some ''o'')
       \<lparr> this_github = None, this_reload = False, this_debug = False, this_error = False,
         logged = [] \<rparr>) = [(''foo'', [(''url'', JStr ''https://example.com/'')])] \<and>
   \<not> matchesKeyPattern ''foo'' \<and>
   snd (verifyShortcuts [(''foo *'', Bare ''https://example.com/'')] (Some ''o'')
       \<lparr> this_github = None, this_reload = False, this_debug = False, this_error = False,
         logged = [] \<rparr>) =
     \<lparr> this_github = None, this_reload = False, this_debug = False, this_error = True,
       logged = [incorrectKeysMessage (Some ''o'') [''foo *'']] \<rparr>"
  by (simp add: verifyShortcuts_def normalizeRaw_def helperLog_def isDigit_def)

subsection \<open>Collection Fetcher\<close>

lemma promiseAll_result:
  "promiseAll f ps m =
     (if \<exists>(i, u) \<in> set ps. f u = Rejected then Inl NetworkError
      else Inr (\<lambda>j. case map_of (rev ps) j of
                       None \<Rightarrow> m j
                     | Some u \<Rightarrow> (case f u of Rejected \<Rightarrow> None | Fulfilled r \<Rightarrow> Some r)))"
proof (induction ps arbitrary: m)
  case Nil
  then show ?case by simp
next
  case (Cons p ps)
  obtain i u where p: "p = (i, u)" by (cases p)
  show ?case
  proof (cases "f u")
    case Rejected
    then show ?thesis by (auto simp: p)
  next
    case (Fulfilled r)
    then show ?thesis
      by (auto simp: p Cons.IH map_of_append map_add_def fun_eq_iff split: option.splits)
  qed
qed


lemma entries_priorities:
  "map (\<lambda>e. priority (snd e))
     (map (\<lambda>(index, namespace).
             (let namespaceInfo = (getInitalNamespaceInfo g namespace) \<lparr> priority := int index + 1 \<rparr>
              in (strOrUndefined (name namespaceInfo), namespaceInfo)))
          (enumerate k nss)) = map (\<lambda>i. int i + 1) [k..<k + length nss]"
proof (induction nss arbitrary: k)
  case Nil
  then show ?case by simp
next
  case (Cons a nss)
  have "[k..<k + length (a # nss)] = k # [Suc k..<Suc k + length nss]"
    by (simp add: upt_rec)
  then show ?case using Cons.IH[of "Suc k"] by (simp add: Let_def)
qed

lemma getInitialNamespaceInfos_distinct_names:
  "distinct (map fst (getInitialNamespaceInfos g nss))"
  unfolding getInitialNamespaceInfos_def fromEntries.simps
  by (rule distinct_fold_update) simp

lemma getInitialNamespaceInfos_distinct_priorities:
  "distinct (map (\<lambda>e. priority (snd e)) (getInitialNamespaceInfos g nss))"
proof -
  define es where "es = map (\<lambda>(index, namespace).
             (let namespaceInfo = (getInitalNamespaceInfo g namespace) \<lparr> priority := int index + 1 \<rparr>
              in (strOrUndefined (name namespaceInfo), namespaceInfo)))
          (enumerate 0 nss)"
  have "distinct (map (\<lambda>i. int i + 1) [0..<0 + length nss])"
    by (simp add: distinct_map inj_on_def)
  then have "distinct (map (\<lambda>e. priority (snd e)) es)"
    using entries_priorities[of g 0 nss] by (simp add: es_def)
  then have inj: "inj_on (\<lambda>e. priority (snd e)) (set es)"
    by (rule distinct_map[THEN iffD1, THEN conjunct2])
  have sub: "set (getInitialNamespaceInfos g nss) \<subseteq> set es"
    unfolding getInitialNamespaceInfos_def fromEntries.simps es_def[symmetric]
    using set_fold_update[of es "[]"] by simp
  have "distinct (getInitialNamespaceInfos g nss)"
    using getInitialNamespaceInfos_distinct_names[of g nss] by (rule distinct_map[THEN iffD1, THEN conjunct1])
  with inj sub show ?thesis
    by (simp add: distinct_map inj_on_subset)
qed

lemma getInitialNamespaceInfos_priority_pos:
  assumes "(n, d) \<in> set (getInitialNamespaceInfos g nss)"
  shows "1 \<le> priority d"
proof -
  let ?es = "map (\<lambda>(index, namespace).
             (let namespaceInfo = (getInitalNamespaceInfo g namespace) \<lparr> priority := int index + 1 \<rparr>
              in (strOrUndefined (name namespaceInfo), namespaceInfo)))
          (enumerate 0 nss)"
  have sub: "set (getInitialNamespaceInfos g nss) \<subseteq> set ?es"
    unfolding getInitialNamespaceInfos_def fromEntries.simps
    using set_fold_update[of ?es "[]"] by simp
  with assms have "(n, d) \<in> set ?es" by blast
  then show ?thesis by (auto simp: Let_def)
qed


lemma startFetches_fold:
  "fold (\<lambda>(nm, namespaceInfo) promises.
             (case url namespaceInfo of
                None \<Rightarrow> promises
              | Some u \<Rightarrow> if u = [] then promises
                          else AList.update (priority namespaceInfo) u promises))
          infos acc = fold (\<lambda>(k, v) m. AList.update k v m) (promisesOf infos) acc"
  by (induction infos arbitrary: acc) (auto split: option.splits)

lemma promisesOf_keys: "set (map fst (promisesOf infos)) \<subseteq> set (map (\<lambda>e. priority (snd e)) infos)"
proof (induction infos)
  case Nil
  then show ?case by simp
next
  case (Cons e infos)
  obtain n d where e: "e = (n, d)" by (cases e)
  from Cons.IH show ?case
    by (cases "url d") (auto simp: e)
qed

lemma promisesOf_distinct:
  "distinct (map (\<lambda>e. priority (snd e)) infos) \<Longrightarrow> distinct (map fst (promisesOf infos))"
proof (induction infos)
  case Nil
  then show ?case by simp
next
  case (Cons e infos)
  obtain n d where e: "e = (n, d)" by (cases e)
  from Cons.prems have "priority d \<notin> set (map (\<lambda>e. priority (snd e)) infos)"
    by (simp add: e)
  with promisesOf_keys[of infos] have "priority d \<notin> set (map fst (promisesOf infos))"
    by blast
  with Cons show ?case by (auto simp: e split: option.splits)
qed

lemma promisesOf_lookup:
  assumes "distinct (map (\<lambda>e. priority (snd e)) infos)" and "(n, d) \<in> set infos"
  shows "map_of (promisesOf infos) (priority d) =
           (case url d of None \<Rightarrow> None | Some u \<Rightarrow> if u = [] then None else Some u)"
  using assms
proof (induction infos)
  case Nil
  then show ?case by simp
next
  case (Cons e infos)
  obtain n' d' where e: "e = (n', d')" by (cases e)
  show ?case
  proof (cases "(n, d) = (n', d')")
    case True
    from Cons.prems(1) have "priority d' \<notin> set (map (\<lambda>e. priority (snd e)) infos)"
      by (simp add: e)
    with promisesOf_keys[of infos] have "priority d' \<notin> set (map fst (promisesOf infos))"
      by blast
    then have "map_of (promisesOf infos) (priority d') = None"
      by (simp add: map_of_eq_None_iff)
    with True show ?thesis by (auto simp: e split: option.splits)
  next
    case False
    with Cons.prems have mem: "(n, d) \<in> set infos" by (auto simp: e)
    with Cons.prems(1) have "priority d \<noteq> priority d'"
      by (force simp: e)
    with Cons.IH mem Cons.prems(1) show ?thesis
      by (auto simp: e split: option.splits)
  qed
qed

lemma startFetches_promises:
  assumes "distinct (map (\<lambda>e. priority (snd e)) infos)"
  shows "distinct (map fst (startFetches infos))"
    and "map_of (startFetches infos) = map_of (promisesOf infos)"
    and "set (startFetches infos) = set (promisesOf infos)"
proof -
  have sf: "startFetches infos = fold (\<lambda>(k, v) m. AList.update k v m) (promisesOf infos) []"
    by (simp add: startFetches_def startFetches_fold)
  show d1: "distinct (map fst (startFetches infos))"
    unfolding sf by (rule distinct_fold_update) simp
  have d2: "distinct (map fst (promisesOf infos))"
    using assms by (rule promisesOf_distinct)
  then have d3: "distinct (map fst (rev (promisesOf infos)))"
    by (simp add: rev_map[symmetric])
  have "map_of (rev (promisesOf infos)) = map_of (promisesOf infos)"
    using d2 d3 by (simp add: map_of_inject_set)
  then show m: "map_of (startFetches infos) = map_of (promisesOf infos)"
    unfolding sf by (simp add: map_of_fold_update)
  from m d1 d2 show "set (startFetches infos) = set (promisesOf infos)"
    by (simp add: map_of_inject_set)
qed

lemma fetchedShortcuts_result:
  "if verifyThrows w (responses (priority d))
   then fetchedShortcuts w reload debug responses d this = Inl TypeError
   else (\<exists>this'. fetchedShortcuts w reload debug responses d this =
           Inr (filled w (responses (priority d)) d, this'))"
  by (simp add: fetchedShortcuts_def parseShortcutsFromYml_def verifyDocument_def
        verifyShortcuts_def Let_def verifyThrows_def loadedShortcuts_def filled_def
        split: option.splits parsed.splits document.splits prod.splits)

lemma fetchedShortcuts_local:
  "responses (priority d) = responses' (priority d) \<Longrightarrow>
   fetchedShortcuts w reload debug responses d this =
   fetchedShortcuts w reload debug responses' d this"
  by (simp add: fetchedShortcuts_def)

lemma fetchLoop_result:
  "if \<exists>(n, d) \<in> set infos. verifyThrows w (responses (priority d))
   then fetchLoop w reload debug responses infos this = Inl TypeError
   else (\<exists>this'. fetchLoop w reload debug responses infos this =
           Inr (map (\<lambda>(n, d). (n, filled w (responses (priority d)) d)) infos, this'))"
proof (induction infos arbitrary: this)
  case Nil
  then show ?case by simp
next
  case (Cons e infos)
  obtain n d where e: "e = (n, d)" by (cases e)
  show ?case
  proof (cases "verifyThrows w (responses (priority d))")
    case True
    with fetchedShortcuts_result[of w responses d reload debug this]
    show ?thesis by (simp add: e)
  next
    case False
    with fetchedShortcuts_result[of w responses d reload debug this]
    obtain this' where
      head: "fetchedShortcuts w reload debug responses d this =
               Inr (filled w (responses (priority d)) d, this')"
      by auto
    show ?thesis
    proof (cases "\<exists>(n, d) \<in> set infos. verifyThrows w (responses (priority d))")
      case True
      with Cons.IH[of this'] have "fetchLoop w reload debug responses infos this' = Inl TypeError"
        by simp
      with True show ?thesis by (simp add: e head)
    next
      case none: False
      with Cons.IH[of this'] obtain this'' where
        "fetchLoop w reload debug responses infos this' =
           Inr (map (\<lambda>(n, d). (n, filled w (responses (priority d)) d)) infos, this'')"
        by auto
      with none False show ?thesis by (simp add: e head)
    qed
  qed
qed

lemma fetchShortcuts_char:
  assumes perm: "mset (settleOrder w (startFetches (getInitialNamespaceInfos (this_github this) nss))) =
                 mset (startFetches (getInitialNamespaceInfos (this_github this) nss))"
  shows "fetchShortcuts w nss reload debug this =
     (if \<exists>(i, u) \<in> set (startFetches (getInitialNamespaceInfos (this_github this) nss)).
            net w u reload = Rejected
      then Inl NetworkError
      else fetchLoop w reload debug
             (\<lambda>j. case map_of (startFetches (getInitialNamespaceInfos (this_github this) nss)) j of
                     None \<Rightarrow> None
                   | Some u \<Rightarrow> (case net w u reload of Rejected \<Rightarrow> None | Fulfilled r \<Rightarrow> Some r))
             (getInitialNamespaceInfos (this_github this) nss) this)"
proof -
  define infos0 where "infos0 = getInitialNamespaceInfos (this_github this) nss"
  define ps where "ps = startFetches infos0"
  define ps' where "ps' = settleOrder w ps"
  have dp: "distinct (map (\<lambda>e. priority (snd e)) infos0)"
    unfolding infos0_def by (rule getInitialNamespaceInfos_distinct_priorities)
  have d1: "distinct (map fst ps)"
    unfolding ps_def using dp by (rule startFetches_promises(1))
  from perm have ms: "mset ps' = mset ps"
    by (simp add: ps'_def ps_def infos0_def)
  then have set_eq: "set ps' = set ps"
    by (rule mset_eq_setD)
  from ms have "image_mset fst (mset ps') = image_mset fst (mset ps)"
    by simp
  then have "mset (map fst (rev ps')) = mset (map fst ps)"
    by simp
  with d1 have d2: "distinct (map fst (rev ps'))"
    by (metis mset_eq_imp_distinct_iff)
  from set_eq have "set (rev ps') = set ps" by simp
  with d1 d2 have mo: "map_of (rev ps') = map_of ps"
    by (simp add: map_of_inject_set)
  show ?thesis
    unfolding fetchShortcuts_def Let_def infos0_def[symmetric] ps_def[symmetric] ps'_def[symmetric]
    by (simp add: promiseAll_result set_eq mo)
qed

lemma own_promise:
  assumes "(n, d) \<in> set (getInitialNamespaceInfos g nss)"
  shows "(case map_of (startFetches (getInitialNamespaceInfos g nss)) (priority d) of
            None \<Rightarrow> None
          | Some u \<Rightarrow> (case net w u reload of Rejected \<Rightarrow> None | Fulfilled r \<Rightarrow> Some r)) =
         ownResponse w reload d"
proof -
  have dp: "distinct (map (\<lambda>e. priority (snd e)) (getInitialNamespaceInfos g nss))"
    by (rule getInitialNamespaceInfos_distinct_priorities)
  show ?thesis
    using startFetches_promises(2)[OF dp] promisesOf_lookup[OF dp assms]
    by (simp add: ownResponse_def split: option.splits)
qed

lemma map_of_mapped:
  assumes "distinct (map fst xs)" and "(n, d) \<in> set xs"
  shows "map_of (map (\<lambda>(n, d). (n, f d)) xs) n = Some (f d)"
  using assms by (induction xs) (auto simp: rev_image_eqI)

lemma promisesOf_set:
  "set (promisesOf infos) =
     {(priority d, u) | n d u. (n, d) \<in> set infos \<and> url d = Some u \<and> u \<noteq> []}"
proof (induction infos)
  case Nil
  show ?case by simp
next
  case (Cons e infos)
  obtain n d where e: "e = (n, d)" by (cases e)
  show ?case
    unfolding e promisesOf.simps
    by (cases "url d") (auto simp: Cons.IH)
qed

text \<open>\<^verbatim>\<open>verifyShortcuts\<close> throws for a descriptor of the call exactly when one of the
  fetches that were started answers 200 with a string that is not empty.\<close>

lemma throws_iff:
  assumes norej: "\<not> (\<exists>(i, u) \<in> set (startFetches (getInitialNamespaceInfos g nss)).
                       net w u reload = Rejected)"
  shows "(\<exists>(n, d) \<in> set (getInitialNamespaceInfos g nss).
            verifyThrows w
              (case map_of (startFetches (getInitialNamespaceInfos g nss)) (priority d) of
                 None \<Rightarrow> None
               | Some u \<Rightarrow> (case net w u reload of Rejected \<Rightarrow> None | Fulfilled r \<Rightarrow> Some r))) \<longleftrightarrow>
         (\<exists>(i, u) \<in> set (startFetches (getInitialNamespaceInfos g nss)).
            \<exists>r s. net w u reload = Fulfilled r \<and> status r = 200 \<and>
                  yamlLoad w (body r) = Document (Text s) \<and> s \<noteq> [])"
proof -
  define infos0 where "infos0 = getInitialNamespaceInfos g nss"
  have dp: "distinct (map (\<lambda>e. priority (snd e)) infos0)"
    unfolding infos0_def by (rule getInitialNamespaceInfos_distinct_priorities)
  have started: "set (startFetches infos0) =
                   {(priority d, u) | n d u. (n, d) \<in> set infos0 \<and> url d = Some u \<and> u \<noteq> []}"
    using startFetches_promises(3)[OF dp] by (simp add: promisesOf_set)
  have own: "(case map_of (startFetches infos0) (priority d) of
                None \<Rightarrow> None
              | Some u \<Rightarrow> (case net w u reload of Rejected \<Rightarrow> None | Fulfilled r \<Rightarrow> Some r)) =
             ownResponse w reload d" if "(n, d) \<in> set infos0" for n d
    using that unfolding infos0_def by (rule own_promise)
  have each: "verifyThrows w (ownResponse w reload d) \<longleftrightarrow>
                (\<exists>u r s. url d = Some u \<and> u \<noteq> [] \<and> net w u reload = Fulfilled r \<and> status r = 200 \<and>
                         yamlLoad w (body r) = Document (Text s) \<and> s \<noteq> [])" for d
    by (auto simp: verifyThrows_def ownResponse_def
          split: option.splits fetched.splits parsed.splits document.splits)
  have "(\<exists>(n, d) \<in> set infos0.
            verifyThrows w
              (case map_of (startFetches infos0) (priority d) of
                 None \<Rightarrow> None
               | Some u \<Rightarrow> (case net w u reload of Rejected \<Rightarrow> None | Fulfilled r \<Rightarrow> Some r))) \<longleftrightarrow>
        (\<exists>(n, d) \<in> set infos0. verifyThrows w (ownResponse w reload d))"
    using own by (metis (mono_tags, lifting) case_prodE case_prodI2 case_prod_conv)
  also have "\<dots> \<longleftrightarrow> (\<exists>(i, u) \<in> set (startFetches infos0).
            \<exists>r s. net w u reload = Fulfilled r \<and> status r = 200 \<and>
                  yamlLoad w (body r) = Document (Text s) \<and> s \<noteq> [])"
    unfolding started each by fastforce
  finally show ?thesis unfolding infos0_def .
qed

lemma filled_fields:
  "shortcuts (filled w resp d) = fst (loadedShortcuts w resp)"
  "nullish (filled w resp d) = snd (loadedShortcuts w resp)"
  "filled w resp d = d \<lparr> shortcuts := shortcuts (filled w resp d), nullish := nullish (filled w resp d) \<rparr>"
  by (simp_all add: filled_def)

text \<open>
  C3 (as amended). Let every started fetch settle (the scheduler only permutes them). If
  one of them rejects (a transport failure), the whole fetch step rejects. If none
  rejects and one of them answers 200 with a body that the parser returns as a string
  that is not empty (a body that is no collection is a plain scalar), \<open>verifyShortcuts\<close>
  throws and the whole fetch step rejects as well. Otherwise the step returns a
  descriptor for every name of the caller's list, and each descriptor is the initial
  one with its shortcuts filled from its own response alone: empty when the
  status is not 200, empty when the parser throws, the normalised mapping when the
  document is one, empty for the empty string and for a value without keys, and
  \<open>undefined\<close> or \<open>null\<close>, as the parser returned it, for an empty document. So a
  non-success status or a failure of the parser in one namespace leaves every other
  namespace as it would be without it.
\<close>

theorem fetchShortcuts_degrades_one_namespace:
  assumes "mset (settleOrder w (startFetches (getInitialNamespaceInfos (this_github this) nss))) =
           mset (startFetches (getInitialNamespaceInfos (this_github this) nss))"
  shows "if \<exists>(i, u) \<in> set (startFetches (getInitialNamespaceInfos (this_github this) nss)).
              net w u reload = Rejected
         then fetchShortcuts w nss reload debug this = Inl NetworkError
         else if \<exists>(i, u) \<in> set (startFetches (getInitialNamespaceInfos (this_github this) nss)).
                   \<exists>r s. net w u reload = Fulfilled r \<and> status r = 200 \<and>
                         yamlLoad w (body r) = Document (Text s) \<and> s \<noteq> []
         then fetchShortcuts w nss reload debug this = Inl TypeError
         else (\<exists>infos this1.
                 fetchShortcuts w nss reload debug this = Inr (infos, this1) \<and>
                 map fst infos = map fst (getInitialNamespaceInfos (this_github this) nss) \<and>
                 (\<forall>n d. (n, d) \<in> set (getInitialNamespaceInfos (this_github this) nss) \<longrightarrow>
                    (\<exists>d'. map_of infos n = Some d' \<and>
                       d' = d \<lparr> shortcuts := shortcuts d', nullish := nullish d' \<rparr> \<and>
                       (\<forall>u r. url d = Some u \<and> u \<noteq> [] \<and> net w u reload = Fulfilled r \<longrightarrow>
                          (status r \<noteq> 200 \<longrightarrow> shortcuts d' = [] \<and> \<not> nullish d') \<and>
                          (\<forall>msg. status r = 200 \<and> yamlLoad w (body r) = YamlError msg \<longrightarrow>
                             shortcuts d' = [] \<and> \<not> nullish d') \<and>
                          (\<forall>doc. status r = 200 \<and> yamlLoad w (body r) = Document (Mapping doc) \<longrightarrow>
                             shortcuts d' = map (\<lambda>(k, v). (k, normalizeRaw v)) doc \<and>
                             \<not> nullish d') \<and>
                          (status r = 200 \<and>
                           (yamlLoad w (body r) = Document (Text []) \<or>
                            yamlLoad w (body r) = Document Keyless) \<longrightarrow>
                             shortcuts d' = [] \<and> \<not> nullish d') \<and>
                          (status r = 200 \<and> yamlLoad w (body r) = Document Nothing \<longrightarrow>
                             shortcuts d' = [] \<and> nullish d')))))"
proof (cases "\<exists>(i, u) \<in> set (startFetches (getInitialNamespaceInfos (this_github this) nss)).
              net w u reload = Rejected")
  case True
  then show ?thesis
    using fetchShortcuts_char[OF assms, of reload debug] by simp
next
  case False
  define infos0 where "infos0 = getInitialNamespaceInfos (this_github this) nss"
  define responses where "responses =
    (\<lambda>j. case map_of (startFetches infos0) j of
            None \<Rightarrow> None
          | Some u \<Rightarrow> (case net w u reload of Rejected \<Rightarrow> None | Fulfilled r \<Rightarrow> Some r))"
  have loop: "fetchShortcuts w nss reload debug this = fetchLoop w reload debug responses infos0 this"
    using False fetchShortcuts_char[OF assms, of reload debug]
    by (simp add: responses_def infos0_def)
  have throws: "(\<exists>(n, d) \<in> set infos0. verifyThrows w (responses (priority d))) \<longleftrightarrow>
                (\<exists>(i, u) \<in> set (startFetches infos0).
                   \<exists>r s. net w u reload = Fulfilled r \<and> status r = 200 \<and>
                         yamlLoad w (body r) = Document (Text s) \<and> s \<noteq> [])"
    unfolding responses_def infos0_def using False by (rule throws_iff)
  show ?thesis
  proof (cases "\<exists>(i, u) \<in> set (startFetches infos0).
                   \<exists>r s. net w u reload = Fulfilled r \<and> status r = 200 \<and>
                         yamlLoad w (body r) = Document (Text s) \<and> s \<noteq> []")
    case True
    with throws fetchLoop_result[of infos0 w responses reload debug this]
    have "fetchLoop w reload debug responses infos0 this = Inl TypeError"
      by simp
    with loop False True show ?thesis
      unfolding infos0_def by simp
  next
    case quiet: False
    with throws fetchLoop_result[of infos0 w responses reload debug this]
    obtain this1 where
      res: "fetchLoop w reload debug responses infos0 this =
              Inr (map (\<lambda>(n, d). (n, filled w (responses (priority d)) d)) infos0, this1)"
      by auto
    define infos where "infos = map (\<lambda>(n, d). (n, filled w (responses (priority d)) d)) infos0"
    have keys: "map fst infos = map fst infos0"
      by (simp add: infos_def case_prod_beta comp_def)
    have dn: "distinct (map fst infos0)"
      unfolding infos0_def by (rule getInitialNamespaceInfos_distinct_names)
    have each: "\<exists>d'. map_of infos n = Some d' \<and>
                   d' = d \<lparr> shortcuts := shortcuts d', nullish := nullish d' \<rparr> \<and>
                   (\<forall>u r. url d = Some u \<and> u \<noteq> [] \<and> net w u reload = Fulfilled r \<longrightarrow>
                      (status r \<noteq> 200 \<longrightarrow> shortcuts d' = [] \<and> \<not> nullish d') \<and>
                      (\<forall>msg. status r = 200 \<and> yamlLoad w (body r) = YamlError msg \<longrightarrow>
                         shortcuts d' = [] \<and> \<not> nullish d') \<and>
                      (\<forall>doc. status r = 200 \<and> yamlLoad w (body r) = Document (Mapping doc) \<longrightarrow>
                         shortcuts d' = map (\<lambda>(k, v). (k, normalizeRaw v)) doc \<and>
                         \<not> nullish d') \<and>
                      (status r = 200 \<and>
                       (yamlLoad w (body r) = Document (Text []) \<or>
                        yamlLoad w (body r) = Document Keyless) \<longrightarrow>
                         shortcuts d' = [] \<and> \<not> nullish d') \<and>
                      (status r = 200 \<and> yamlLoad w (body r) = Document Nothing \<longrightarrow>
                         shortcuts d' = [] \<and> nullish d'))"
      if mem: "(n, d) \<in> set infos0" for n d
    proof -
      have own: "responses (priority d) = ownResponse w reload d"
        unfolding responses_def infos0_def using mem own_promise[of n d "this_github this" nss w reload]
        by (simp add: infos0_def)
      have look: "map_of infos n = Some (filled w (ownResponse w reload d) d)"
        unfolding infos_def own[symmetric] using dn mem by (rule map_of_mapped)
      show ?thesis
        unfolding look
        by (intro exI[of _ "filled w (ownResponse w reload d) d"] conjI refl filled_fields(3))
           (auto simp: filled_fields(1,2) loadedShortcuts_def ownResponse_def)
    qed
    from loop res have "fetchShortcuts w nss reload debug this = Inr (infos, this1)"
      by (simp add: infos_def)
    with keys each False quiet show ?thesis
      unfolding infos0_def by auto
  qed
qed

theorem fetchShortcuts_degrades_one_namespace_witness:
  "mset (settleOrder
           (loadWorld [(siteUrl ''o'', 200, ''g 1: https://g.example/''), (siteUrl ''de'', 404, []),
                       (siteUrl ''.us'', 200, ''{'')]
                      [(''g 1: https://g.example/'',
                          Document (Mapping [(''g 1'', Bare ''https://g.example/'')])),
                       (''{'', YamlError ''unexpected end of the stream'')])
           (startFetches (getInitialNamespaceInfos (this_github freshThis)
                            [NsString ''o'', NsString ''de'', NsString ''.us'']))) =
   mset (startFetches (getInitialNamespaceInfos (this_github freshThis)
                            [NsString ''o'', NsString ''de'', NsString ''.us''])) \<and>
   (\<exists>infos this1.
      fetchShortcuts
        (loadWorld [(siteUrl ''o'', 200, ''g 1: https://g.example/''), (siteUrl ''de'', 404, []),
                    (siteUrl ''.us'', 200, ''{'')]
                   [(''g 1: https://g.example/'',
                       Document (Mapping [(''g 1'', Bare ''https://g.example/'')])),
                    (''{'', YamlError ''unexpected end of the stream'')])
        [NsString ''o'', NsString ''de'', NsString ''.us''] False False freshThis =
        Inr (infos, this1) \<and>
      map (\<lambda>(n, d). (n, shortcuts d, nullish d)) infos =
        [(''o'', [(''g 1'', [(''url'', JStr ''https://g.example/'')])], False),
         (''de'', [], False), (''.us'', [], False)] \<and>
      this_error this1) \<and>
   fetchShortcuts
     (loadWorld [(siteUrl ''o'', 200, ''g 1: https://g.example/''),
                 (siteUrl ''de'', 200, ''Not Found'')]
                [(''g 1: https://g.example/'',
                    Document (Mapping [(''g 1'', Bare ''https://g.example/'')]))])
     [NsString ''o'', NsString ''de''] False False freshThis = Inl TypeError"
  using fetchShortcuts_degrades_one_namespace
          [of "loadWorld [(siteUrl ''o'', 200, ''g 1: https://g.example/''), (siteUrl ''de'', 404, []),
                          (siteUrl ''.us'', 200, ''{'')]
                         [(''g 1: https://g.example/'',
                             Document (Mapping [(''g 1'', Bare ''https://g.example/'')])),
                          (''{'', YamlError ''unexpected end of the stream'')]"
              freshThis "[NsString ''o'', NsString ''de'', NsString ''.us'']" False False]
        fetchShortcuts_degrades_one_namespace
          [of "loadWorld [(siteUrl ''o'', 200, ''g 1: https://g.example/''),
                          (siteUrl ''de'', 200, ''Not Found'')]
                         [(''g 1: https://g.example/'',
                             Document (Mapping [(''g 1'', Bare ''https://g.example/'')]))]"
              freshThis "[NsString ''o'', NsString ''de'']" False False]
  by (simp add: eval_defs)

text \<open>The claim as stated has a transport failure degrade one namespace only. The fetch
  of \<open>o\<close> rejects here, and the fetch step rejects as a whole although \<open>de\<close> answers.\<close>

theorem fetchShortcuts_transport_failure_counterexample:
  "fetchShortcuts
     (testWorld [(siteUrl ''de'', 200, ''de-doc'')]
                [(''de-doc'', [(''g 1'', Bare ''https://g.example/'')])])
     [NsString ''o'', NsString ''de''] False False freshThis = Inl NetworkError"
  by (simp add: eval_defs)

lemma fetchedShortcuts_world:
  "yamlLoad w2 = yamlLoad w1 \<Longrightarrow>
   fetchedShortcuts w2 reload debug responses d this = fetchedShortcuts w1 reload debug responses d this"
proof -
  assume "yamlLoad w2 = yamlLoad w1"
  then have same: "parseShortcutsFromYml w2 = parseShortcutsFromYml w1"
    by (simp add: parseShortcutsFromYml_def fun_eq_iff)
  show ?thesis
    unfolding fetchedShortcuts_def same by (rule refl)
qed

lemma fetchLoop_world:
  assumes "yamlLoad w2 = yamlLoad w1"
  shows "fetchLoop w2 reload debug responses infos this = fetchLoop w1 reload debug responses infos this"
proof (induction infos arbitrary: this)
  case Nil
  show ?case by simp
next
  case (Cons e infos)
  obtain n d where e: "e = (n, d)" by (cases e)
  show ?case
    unfolding e fetchLoop.simps fetchedShortcuts_world[OF assms] Cons.IH
    by (rule refl)
qed

text \<open>
  C7. Two runs whose network and parser agree and whose fetches settle in any two
  orders give the same result of \<open>fetchShortcuts\<close>, and in that result the descriptor
  under every name is the one computed from the response of its own URL: the responses
  are looked up at the descriptor's priority, and no two descriptors of one call share a
  priority.
\<close>

theorem fetchShortcuts_completion_order:
  assumes "net w2 = net w1" and "yamlLoad w2 = yamlLoad w1"
    and "mset (settleOrder w1 (startFetches (getInitialNamespaceInfos (this_github this) nss))) =
         mset (startFetches (getInitialNamespaceInfos (this_github this) nss))"
    and "mset (settleOrder w2 (startFetches (getInitialNamespaceInfos (this_github this) nss))) =
         mset (startFetches (getInitialNamespaceInfos (this_github this) nss))"
  shows "fetchShortcuts w2 nss reload debug this = fetchShortcuts w1 nss reload debug this \<and>
         (\<forall>infos this1 n d.
            fetchShortcuts w1 nss reload debug this = Inr (infos, this1) \<and>
            (n, d) \<in> set (getInitialNamespaceInfos (this_github this) nss) \<longrightarrow>
            (\<exists>d' this'.
               fetchedShortcuts w1 reload debug
                 (\<lambda>i. if i = priority d then ownResponse w1 reload d else None) d this =
                 Inr (d', this') \<and>
               map_of infos n = Some d'))"
proof
  show "fetchShortcuts w2 nss reload debug this = fetchShortcuts w1 nss reload debug this"
    unfolding fetchShortcuts_char[OF assms(3), of reload debug]
              fetchShortcuts_char[OF assms(4), of reload debug]
              assms(1) fetchLoop_world[OF assms(2)]
    by (rule refl)
next
  define infos0 where "infos0 = getInitialNamespaceInfos (this_github this) nss"
  define responses where "responses =
    (\<lambda>j. case map_of (startFetches infos0) j of
            None \<Rightarrow> None
          | Some u \<Rightarrow> (case net w1 u reload of Rejected \<Rightarrow> None | Fulfilled r \<Rightarrow> Some r))"
  have dn: "distinct (map fst infos0)"
    unfolding infos0_def by (rule getInitialNamespaceInfos_distinct_names)
  have "\<exists>d' this'.
          fetchedShortcuts w1 reload debug
            (\<lambda>i. if i = priority d then ownResponse w1 reload d else None) d this =
            Inr (d', this') \<and>
          map_of infos n = Some d'"
    if res: "fetchShortcuts w1 nss reload debug this = Inr (infos, this1)"
      and mem: "(n, d) \<in> set infos0" for infos this1 n d
  proof -
    from res have loop: "fetchLoop w1 reload debug responses infos0 this = Inr (infos, this1)"
      using fetchShortcuts_char[OF assms(3), of reload debug]
      by (simp add: responses_def infos0_def split: if_splits)
    with fetchLoop_result[of infos0 w1 responses reload debug this]
    have quiet: "\<not> (\<exists>(n, d) \<in> set infos0. verifyThrows w1 (responses (priority d)))"
      and infos: "infos = map (\<lambda>(n, d). (n, filled w1 (responses (priority d)) d)) infos0"
      by (auto split: if_splits)
    from quiet mem have "\<not> verifyThrows w1 (responses (priority d))"
      by auto
    with fetchedShortcuts_result[of w1 responses d reload debug this]
    obtain this' where
      "fetchedShortcuts w1 reload debug responses d this =
         Inr (filled w1 (responses (priority d)) d, this')"
      by auto
    moreover have own: "responses (priority d) = ownResponse w1 reload d"
      unfolding responses_def infos0_def
      using mem own_promise[of n d "this_github this" nss w1 reload]
      by (simp add: infos0_def)
    moreover have "fetchedShortcuts w1 reload debug responses d this =
               fetchedShortcuts w1 reload debug
                 (\<lambda>i. if i = priority d then ownResponse w1 reload d else None) d this"
      by (rule fetchedShortcuts_local) (simp add: own)
    moreover have "map_of infos n = Some (filled w1 (responses (priority d)) d)"
      unfolding infos using dn mem by (rule map_of_mapped)
    ultimately show ?thesis by simp
  qed
  then show "\<forall>infos this1 n d.
            fetchShortcuts w1 nss reload debug this = Inr (infos, this1) \<and>
            (n, d) \<in> set (getInitialNamespaceInfos (this_github this) nss) \<longrightarrow>
            (\<exists>d' this'.
               fetchedShortcuts w1 reload debug
                 (\<lambda>i. if i = priority d then ownResponse w1 reload d else None) d this =
                 Inr (d', this') \<and>
               map_of infos n = Some d')"
    unfolding infos0_def by blast
qed

theorem fetchShortcuts_completion_order_witness:
  "settleOrder (testWorld [(siteUrl ''o'', 200, ''o-doc''), (siteUrl ''de'', 200, ''de-doc'')]
                  [(''o-doc'', [(''g 1'', Bare ''https://g.example/'')]),
                   (''de-doc'', [(''g 1'', Bare ''https://g.example/de'')])])
      (startFetches (getInitialNamespaceInfos None [NsString ''o'', NsString ''de''])) =
     [(2, siteUrl ''de''), (1, siteUrl ''o'')] \<and>
   settleOrder ((testWorld [(siteUrl ''o'', 200, ''o-doc''), (siteUrl ''de'', 200, ''de-doc'')]
                  [(''o-doc'', [(''g 1'', Bare ''https://g.example/'')]),
                   (''de-doc'', [(''g 1'', Bare ''https://g.example/de'')])])
                 \<lparr> settleOrder := (\<lambda>ps. ps) \<rparr>)
      (startFetches (getInitialNamespaceInfos None [NsString ''o'', NsString ''de''])) =
     [(1, siteUrl ''o''), (2, siteUrl ''de'')] \<and>
   fetchShortcuts
     ((testWorld [(siteUrl ''o'', 200, ''o-doc''), (siteUrl ''de'', 200, ''de-doc'')]
                 [(''o-doc'', [(''g 1'', Bare ''https://g.example/'')]),
                  (''de-doc'', [(''g 1'', Bare ''https://g.example/de'')])])
        \<lparr> settleOrder := (\<lambda>ps. ps) \<rparr>)
     [NsString ''o'', NsString ''de''] False False freshThis =
   fetchShortcuts
     (testWorld [(siteUrl ''o'', 200, ''o-doc''), (siteUrl ''de'', 200, ''de-doc'')]
                [(''o-doc'', [(''g 1'', Bare ''https://g.example/'')]),
                 (''de-doc'', [(''g 1'', Bare ''https://g.example/de'')])])
     [NsString ''o'', NsString ''de''] False False freshThis \<and>
   map (\<lambda>(n, d). (n, shortcuts d))
     (fst (projr (fetchShortcuts
        (testWorld [(siteUrl ''o'', 200, ''o-doc''), (siteUrl ''de'', 200, ''de-doc'')]
                [(''o-doc'', [(''g 1'', Bare ''https://g.example/'')]),
                 (''de-doc'', [(''g 1'', Bare ''https://g.example/de'')])])
        [NsString ''o'', NsString ''de''] False False freshThis))) =
     [(''o'', [(''g 1'', [(''url'', JStr ''https://g.example/'')])]),
      (''de'', [(''g 1'', [(''url'', JStr ''https://g.example/de'')])])]"
proof -
  have same:
    "fetchShortcuts
       ((testWorld [(siteUrl ''o'', 200, ''o-doc''), (siteUrl ''de'', 200, ''de-doc'')]
                   [(''o-doc'', [(''g 1'', Bare ''https://g.example/'')]),
                    (''de-doc'', [(''g 1'', Bare ''https://g.example/de'')])])
          \<lparr> settleOrder := (\<lambda>ps. ps) \<rparr>)
       [NsString ''o'', NsString ''de''] False False freshThis =
     fetchShortcuts
       (testWorld [(siteUrl ''o'', 200, ''o-doc''), (siteUrl ''de'', 200, ''de-doc'')]
                  [(''o-doc'', [(''g 1'', Bare ''https://g.example/'')]),
                   (''de-doc'', [(''g 1'', Bare ''https://g.example/de'')])])
       [NsString ''o'', NsString ''de''] False False freshThis"
    by (rule fetchShortcuts_completion_order[THEN conjunct1]) (simp_all add: testWorld_def)
  show ?thesis
    unfolding same by (simp add: eval_defs)
qed

subsection \<open>Include Resolver\<close>

lemma assign_fields:
  assumes "distinct (map fst target)"
  shows "map_of (assign shortcut (Some target)) p =
           (case map_of target p of None \<Rightarrow> map_of shortcut p | Some v \<Rightarrow> Some v)"
proof -
  have d: "distinct (map fst (rev target))"
    using assms by (simp add: rev_map[symmetric])
  have "map_of (rev target) = map_of target"
    using assms d by (simp add: map_of_inject_set)
  then show ?thesis
    by (simp add: assign_def map_of_fold_update map_add_def)
qed

lemma lookup_storeShortcut:
  assumes "map_of infos nm \<noteq> None"
  shows "lookupShortcut (storeShortcut infos nm key e) nm key = Some e"
  using assms by (auto simp: lookupShortcut_def storeShortcut_def update_conv')

lemma storeShortcut_same:
  assumes "lookupShortcut infos nm key = Some shortcut"
  shows "storeShortcut infos nm key shortcut = infos"
proof -
  from assms obtain d where d: "map_of infos nm = Some d" "map_of (shortcuts d) key = Some shortcut"
    by (auto simp: lookupShortcut_def split: option.splits)
  have "AList.update key shortcut (shortcuts d) = shortcuts d"
    using d(2) by (rule update_triv)
  then have "d \<lparr> shortcuts := AList.update key shortcut (shortcuts d) \<rparr> = d"
    by simp
  then show ?thesis
    using d(1) by (simp add: storeShortcut_def update_triv)
qed

lemma assignInfos_known:
  assumes "map_of infos nm \<noteq> None"
  shows "map_of (assignInfos infos new) nm \<noteq> None"
  using assms by (auto simp: assignInfos_def map_of_fold_update)

lemma getShortcutFromNamespace_keeps:
  assumes "getShortcutFromNamespace w k ns infos this = Inr (t, infos1, this1)"
    and "map_of infos nm \<noteq> None"
  shows "map_of infos1 nm \<noteq> None"
  using assms assignInfos_known[of infos nm]
  by (fastforce simp: getShortcutFromNamespace_def Let_def
           split: if_splits jsval.splits sum.splits option.splits)

text \<open>
  C2 (as amended). For an entry with an include directive that has a target key, the
  merge is \<^verbatim>\<open>Object.assign(shortcut, shortcutToInclude)\<close>: the fields of the include
  target are written onto the including entry. Wherever both define a field, the value
  of the include target is the one in the result; the including entry's own value stays
  only for the fields the target does not define. This holds for a target in the same
  namespace and for one in another namespace.
\<close>

theorem includeStep_target_overwrites:
  assumes "lookupShortcut infos nm key = Some shortcut"
  shows "(\<forall>k target.
            includeOf shortcut = IncludeKey k \<and>
            lookupShortcut infos nm (toStr k) = Some target \<and> distinct (map fst target) \<longrightarrow>
            (\<exists>infos1 merged.
               includeStep w nm key infos this = Inr (infos1, this) \<and>
               lookupShortcut infos1 nm key = Some merged \<and>
               (\<forall>p. map_of merged p =
                      (case map_of target p of None \<Rightarrow> map_of shortcut p | Some v \<Rightarrow> Some v)))) \<and>
         (\<forall>k ns target infos1 this1.
            includeOf shortcut = IncludeFrom k ns \<and>
            getShortcutFromNamespace w k ns infos this = Inr (Some target, infos1, this1) \<and>
            distinct (map fst target) \<longrightarrow>
            (\<exists>infos2 merged.
               includeStep w nm key infos this = Inr (infos2, this1) \<and>
               lookupShortcut infos2 nm key = Some merged \<and>
               (\<forall>p. map_of merged p =
                      (case map_of target p of None \<Rightarrow> map_of shortcut p | Some v \<Rightarrow> Some v))))"
proof (intro conjI allI impI)
  fix k target
  assume h: "includeOf shortcut = IncludeKey k \<and>
             lookupShortcut infos nm (toStr k) = Some target \<and> distinct (map fst target)"
  from assms have known: "map_of infos nm \<noteq> None"
    by (auto simp: lookupShortcut_def split: option.splits)
  have step: "includeStep w nm key infos this =
                Inr (storeShortcut infos nm key (assign shortcut (Some target)), this)"
    using assms h by (simp add: includeStep_def)
  show "\<exists>infos1 merged.
          includeStep w nm key infos this = Inr (infos1, this) \<and>
          lookupShortcut infos1 nm key = Some merged \<and>
          (\<forall>p. map_of merged p =
                 (case map_of target p of None \<Rightarrow> map_of shortcut p | Some v \<Rightarrow> Some v))"
    using step lookup_storeShortcut[OF known] assign_fields h by blast
next
  fix k ns target infos1 this1
  assume h: "includeOf shortcut = IncludeFrom k ns \<and>
             getShortcutFromNamespace w k ns infos this = Inr (Some target, infos1, this1) \<and>
             distinct (map fst target)"
  from assms have known: "map_of infos nm \<noteq> None"
    by (auto simp: lookupShortcut_def split: option.splits)
  with h have known1: "map_of infos1 nm \<noteq> None"
    using getShortcutFromNamespace_keeps by blast
  have step: "includeStep w nm key infos this =
                Inr (storeShortcut infos1 nm key (assign shortcut (Some target)), this1)"
    using assms h by (simp add: includeStep_def)
  show "\<exists>infos2 merged.
          includeStep w nm key infos this = Inr (infos2, this1) \<and>
          lookupShortcut infos2 nm key = Some merged \<and>
          (\<forall>p. map_of merged p =
                 (case map_of target p of None \<Rightarrow> map_of shortcut p | Some v \<Rightarrow> Some v))"
    using step lookup_storeShortcut[OF known1] assign_fields h by blast
qed

theorem includeStep_target_overwrites_witness:
  "lookupShortcut
     [siteNamespace ''o'' 1
        [(''x 1'', [(''url'', JStr ''https://x.example/{%q}''), (''title'', JStr ''T'')]),
         (''y 0'', [(''include'', JObj [(''key'', JStr ''x 1'')]), (''title'', JStr ''Y'')])]]
     ''o'' ''y 0'' =
     Some [(''include'', JObj [(''key'', JStr ''x 1'')]), (''title'', JStr ''Y'')] \<and>
   (\<exists>infos1 merged.
      includeStep (testWorld [] []) ''o'' ''y 0''
        [siteNamespace ''o'' 1
           [(''x 1'', [(''url'', JStr ''https://x.example/{%q}''), (''title'', JStr ''T'')]),
            (''y 0'', [(''include'', JObj [(''key'', JStr ''x 1'')]), (''title'', JStr ''Y'')])]]
        freshThis = Inr (infos1, freshThis) \<and>
      lookupShortcut infos1 ''o'' ''y 0'' = Some merged \<and>
      map_of merged ''title'' = Some (JStr ''T'') \<and>
      map_of merged ''url'' = Some (JStr ''https://x.example/{%q}'') \<and>
      map_of merged ''include'' = Some (JObj [(''key'', JStr ''x 1'')]))"
proof -
  let ?infos = "[siteNamespace ''o'' 1
        [(''x 1'', [(''url'', JStr ''https://x.example/{%q}''), (''title'', JStr ''T'')]),
         (''y 0'', [(''include'', JObj [(''key'', JStr ''x 1'')]), (''title'', JStr ''Y'')])]]"
  let ?y = "[(''include'', JObj [(''key'', JStr ''x 1'')]), (''title'', JStr ''Y'')]"
  let ?x = "[(''url'', JStr ''https://x.example/{%q}''), (''title'', JStr ''T'')]"
  have look: "lookupShortcut ?infos ''o'' ''y 0'' = Some ?y"
    by (simp add: include_defs)
  have pre: "includeOf ?y = IncludeKey (JStr ''x 1'') \<and>
             lookupShortcut ?infos ''o'' (toStr (JStr ''x 1'')) = Some ?x \<and>
             distinct (map fst ?x)"
    by (simp add: include_defs)
  from includeStep_target_overwrites[OF look, THEN conjunct1, rule_format, OF pre,
         of "testWorld [] []" freshThis]
  obtain infos1 merged where
    "includeStep (testWorld [] []) ''o'' ''y 0'' ?infos freshThis = Inr (infos1, freshThis)"
    "lookupShortcut infos1 ''o'' ''y 0'' = Some merged"
    "\<forall>p. map_of merged p = (case map_of ?x p of None \<Rightarrow> map_of ?y p | Some v \<Rightarrow> Some v)"
    by blast
  then have "includeStep (testWorld [] []) ''o'' ''y 0'' ?infos freshThis = Inr (infos1, freshThis) \<and>
      lookupShortcut infos1 ''o'' ''y 0'' = Some merged \<and>
      map_of merged ''title'' = Some (JStr ''T'') \<and>
      map_of merged ''url'' = Some (JStr ''https://x.example/{%q}'') \<and>
      map_of merged ''include'' = Some (JObj [(''key'', JStr ''x 1'')])"
    by simp
  with look show ?thesis by blast
qed

text \<open>The claim as stated lets the including entry's own fields win. Here \<open>y 0\<close> has the
  title \<open>Y\<close> and includes \<open>x 1\<close>, whose title is \<open>T\<close>: after the pass the title of
  \<open>y 0\<close> is \<open>T\<close>.\<close>

theorem addIncludes_own_title_lost_counterexample:
  "addIncludes (testWorld [] []) ''o''
     [siteNamespace ''o'' 1
        [(''x 1'', [(''url'', JStr ''https://x.example/{%q}''), (''title'', JStr ''T'')]),
         (''y 0'', [(''include'', JObj [(''key'', JStr ''x 1'')]), (''title'', JStr ''Y'')])]]
     freshThis =
   Inr ([siteNamespace ''o'' 1
           [(''x 1'', [(''url'', JStr ''https://x.example/{%q}''), (''title'', JStr ''T'')]),
            (''y 0'', [(''include'', JObj [(''key'', JStr ''x 1'')]), (''title'', JStr ''T''),
                       (''url'', JStr ''https://x.example/{%q}'')])]],
        freshThis)"
  by (simp add: include_defs)

lemma update_absent:
  "map_of al k = None \<Longrightarrow> AList.update k v al = al @ [(k, v)]"
  by (induction al) (auto split: if_splits)

lemma getInitialNamespaceInfos_single:
  "getInitialNamespaceInfos g [NsString s] =
     [(s, (getInitalNamespaceInfo g (NsString s)) \<lparr> priority := 1 \<rparr>)]"
  by (simp add: getInitialNamespaceInfos_def addFetchUrlToSiteNamespace_def
        addFetchUrlToGithubNamespace_def Let_def)

lemma single_url:
  "\<exists>u. url (getInitalNamespaceInfo g (NsString s)) = Some u \<and> u \<noteq> []"
  by (simp add: addFetchUrlToSiteNamespace_def addFetchUrlToGithubNamespace_def Let_def)

lemma fetchShortcuts_single:
  assumes u: "url (getInitalNamespaceInfo (this_github this) (NsString s)) = Some u"
    and settle: "settleOrder w [(1, u)] = [(1, u)]"
  shows "fetchShortcuts w [NsString s] reload debug this =
     (case net w u reload of
        Rejected \<Rightarrow> Inl NetworkError
      | Fulfilled r \<Rightarrow>
          fetchLoop w reload debug (\<lambda>i. if i = 1 then Some r else None)
            [(s, (getInitalNamespaceInfo (this_github this) (NsString s)) \<lparr> priority := 1 \<rparr>)]
            this)"
proof -
  from single_url[of "this_github this" s] u have ne: "u \<noteq> []" by auto
  have ps: "startFetches [(s, (getInitalNamespaceInfo (this_github this) (NsString s)) \<lparr> priority := 1 \<rparr>)] =
            [(1, u)]"
    using u ne by (simp add: startFetches_def del: getInitalNamespaceInfo.simps)
  show ?thesis
  proof (cases "net w u reload")
    case Rejected
    then show ?thesis
      by (simp add: fetchShortcuts_def getInitialNamespaceInfos_single ps settle Let_def
            del: getInitalNamespaceInfo.simps)
  next
    case (Fulfilled r)
    have same: "[1 \<mapsto> r] = (\<lambda>i. if i = 1 then Some r else None)"
      by (simp add: fun_eq_iff)
    show ?thesis
      unfolding fetchShortcuts_def getInitialNamespaceInfos_single Let_def ps settle
      by (simp add: Fulfilled same del: getInitalNamespaceInfo.simps fetchLoop.simps)
  qed
qed

lemma map_of_values:
  "map_of (map (\<lambda>(k, v). (k, f v)) xs) k = map_option f (map_of xs k)"
  by (induction xs) auto

text \<open>The fetch of one namespace on demand, by what its fetch settles with.\<close>

lemma fetchShortcuts_on_demand:
  assumes u: "url (getInitalNamespaceInfo (this_github this) (NsString s)) = Some u"
    and settle: "settleOrder w [(1, u)] = [(1, u)]"
  shows "net w u reload = Rejected \<Longrightarrow>
           fetchShortcuts w [NsString s] reload debug this = Inl NetworkError"
    and "net w u reload = Fulfilled r \<Longrightarrow> verifyThrows w (Some r) \<Longrightarrow>
           fetchShortcuts w [NsString s] reload debug this = Inl TypeError"
    and "net w u reload = Fulfilled r \<Longrightarrow> \<not> verifyThrows w (Some r) \<Longrightarrow>
           \<exists>this1. fetchShortcuts w [NsString s] reload debug this =
             Inr ([(s, filled w (Some r)
                         ((getInitalNamespaceInfo (this_github this) (NsString s))
                            \<lparr> priority := 1 \<rparr>))], this1)"
proof -
  let ?d = "(getInitalNamespaceInfo (this_github this) (NsString s)) \<lparr> priority := 1 \<rparr>"
  let ?responses = "\<lambda>i::int. if i = 1 then Some r else None"
  have p: "?responses (priority ?d) = Some r"
    by simp
  note loop = fetchLoop_result[of "[(s, ?d)]" w ?responses reload debug this]
  show "net w u reload = Rejected \<Longrightarrow>
          fetchShortcuts w [NsString s] reload debug this = Inl NetworkError"
    by (simp add: fetchShortcuts_single[OF u settle])
  show "net w u reload = Fulfilled r \<Longrightarrow> verifyThrows w (Some r) \<Longrightarrow>
          fetchShortcuts w [NsString s] reload debug this = Inl TypeError"
    using loop unfolding fetchShortcuts_single[OF u settle]
    by (simp del: getInitalNamespaceInfo.simps fetchLoop.simps)
  show "net w u reload = Fulfilled r \<Longrightarrow> \<not> verifyThrows w (Some r) \<Longrightarrow>
          \<exists>this1. fetchShortcuts w [NsString s] reload debug this =
            Inr ([(s, filled w (Some r) ?d)], this1)"
    using loop unfolding fetchShortcuts_single[OF u settle]
    by (simp del: getInitalNamespaceInfo.simps fetchLoop.simps)
qed

lemma getShortcutFromNamespace_on_demand:
  assumes unknown: "map_of infos s = None" and own: "s \<notin> set objectPrototypeKeys"
    and u: "url (getInitalNamespaceInfo (this_github this) (NsString s)) = Some u"
    and settle: "settleOrder w [(1, u)] = [(1, u)]"
  shows "net w u (this_reload this) = Rejected \<Longrightarrow>
           getShortcutFromNamespace w k (JStr s) infos this = Inl NetworkError"
    and "net w u (this_reload this) = Fulfilled r \<Longrightarrow> verifyThrows w (Some r) \<Longrightarrow>
           getShortcutFromNamespace w k (JStr s) infos this = Inl TypeError"
    and "net w u (this_reload this) = Fulfilled r \<Longrightarrow> \<not> verifyThrows w (Some r) \<Longrightarrow>
           snd (loadedShortcuts w (Some r)) \<Longrightarrow>
           getShortcutFromNamespace w k (JStr s) infos this = Inl TypeError"
    and "net w u (this_reload this) = Fulfilled r \<Longrightarrow> \<not> verifyThrows w (Some r) \<Longrightarrow>
           \<not> snd (loadedShortcuts w (Some r)) \<Longrightarrow>
           \<exists>this1. getShortcutFromNamespace w k (JStr s) infos this =
             Inr (map_of (fst (loadedShortcuts w (Some r))) (toStr k),
                  infos @ [(s, filled w (Some r)
                                 ((getInitalNamespaceInfo (this_github this) (NsString s))
                                    \<lparr> priority := 1 \<rparr>))],
                  this1)"
proof -
  let ?d = "filled w (Some r)
              ((getInitalNamespaceInfo (this_github this) (NsString s)) \<lparr> priority := 1 \<rparr>)"
  note fetch = fetchShortcuts_on_demand[OF u settle,
                 where reload = "this_reload this" and debug = "this_debug this"]
  have assigned: "assignInfos infos [(s, ?d)] = infos @ [(s, ?d)]"
    using unknown by (simp add: assignInfos_def update_absent)
  show "net w u (this_reload this) = Rejected \<Longrightarrow>
          getShortcutFromNamespace w k (JStr s) infos this = Inl NetworkError"
    using unknown own fetch(1) by (simp add: getShortcutFromNamespace_def)
  show "net w u (this_reload this) = Fulfilled r \<Longrightarrow> verifyThrows w (Some r) \<Longrightarrow>
          getShortcutFromNamespace w k (JStr s) infos this = Inl TypeError"
    using unknown own fetch(2)[of r] by (simp add: getShortcutFromNamespace_def)
  show "getShortcutFromNamespace w k (JStr s) infos this = Inl TypeError"
    if "net w u (this_reload this) = Fulfilled r" "\<not> verifyThrows w (Some r)"
       "snd (loadedShortcuts w (Some r))"
  proof -
    from fetch(3)[OF that(1,2)] obtain this1 where
      "fetchShortcuts w [NsString s] (this_reload this) (this_debug this) this =
         Inr ([(s, ?d)], this1)"
      by blast
    then show ?thesis
      using unknown own that(3)
      by (simp add: getShortcutFromNamespace_def assigned map_add_def filled_fields(2)
            del: getInitalNamespaceInfo.simps)
  qed
  show "\<exists>this1. getShortcutFromNamespace w k (JStr s) infos this =
          Inr (map_of (fst (loadedShortcuts w (Some r))) (toStr k), infos @ [(s, ?d)], this1)"
    if "net w u (this_reload this) = Fulfilled r" "\<not> verifyThrows w (Some r)"
       "\<not> snd (loadedShortcuts w (Some r))"
  proof -
    from fetch(3)[OF that(1,2)] obtain this1 where
      "fetchShortcuts w [NsString s] (this_reload this) (this_debug this) this =
         Inr ([(s, ?d)], this1)"
      by blast
    then show ?thesis
      using unknown own that(3)
      by (simp add: getShortcutFromNamespace_def assigned map_add_def filled_fields(1,2)
            del: getInitalNamespaceInfo.simps)
  qed
qed

text \<open>
  C9 (as amended). An include whose target key is absent changes nothing and throws
  nothing where the target namespace has a shortcut mapping: in the same namespace; in
  another namespace that is known and whose shortcuts are neither \<open>undefined\<close> nor
  \<open>null\<close>; and in another namespace that is fetched on demand when that fetch ends with
  a status other than 200, a body on which the parser throws, or a mapping without the
  key. In the last case the namespace joins the map with priority 1 and the shortcuts
  of that response, every other namespace stays as it was, and the including entry
  still has its own fields. Include resolution
  throws where the namespace has no mapping: a NetworkError when the fetch on demand
  rejects, and a TypeError when the shortcuts of the namespace are \<open>undefined\<close> or
  \<open>null\<close> (a known namespace whose document was empty, or one fetched on demand with an
  empty document), when the body fetched on demand is a plain string, and when the
  namespace is unknown and has a name that the map inherits from \<^verbatim>\<open>Object.prototype\<close>.
\<close>

theorem includeStep_missing_target_keeps_entry:
  assumes "lookupShortcut infos nm key = Some shortcut"
  shows "(\<forall>k. includeOf shortcut = IncludeKey k \<and> lookupShortcut infos nm (toStr k) = None \<longrightarrow>
            includeStep w nm key infos this = Inr (infos, this)) \<and>
         (\<forall>k ns d. includeOf shortcut = IncludeFrom k ns \<and> map_of infos (toStr ns) = Some d \<and>
                 map_of (shortcuts d) (toStr k) = None \<longrightarrow>
            includeStep w nm key infos this =
              (if nullish d then Inl TypeError else Inr (infos, this))) \<and>
         (\<forall>k ns. includeOf shortcut = IncludeFrom k ns \<and> map_of infos (toStr ns) = None \<and>
                 toStr ns \<in> set objectPrototypeKeys \<longrightarrow>
            includeStep w nm key infos this = Inl TypeError) \<and>
         (\<forall>k s u.
            includeOf shortcut = IncludeFrom k (JStr s) \<and>
            map_of infos s = None \<and> s \<notin> set objectPrototypeKeys \<and>
            url (getInitalNamespaceInfo (this_github this) (NsString s)) = Some u \<and>
            settleOrder w [(1, u)] = [(1, u)] \<longrightarrow>
            (net w u (this_reload this) = Rejected \<longrightarrow>
               includeStep w nm key infos this = Inl NetworkError) \<and>
            (\<forall>r. net w u (this_reload this) = Fulfilled r \<and>
                  (status r \<noteq> 200 \<or> (\<exists>msg. yamlLoad w (body r) = YamlError msg)) \<longrightarrow>
               (\<exists>infos1 this1.
                  includeStep w nm key infos this = Inr (infos1, this1) \<and>
                  map_of infos1 =
                    (map_of infos)
                      (s \<mapsto> (getInitalNamespaceInfo (this_github this) (NsString s))
                              \<lparr> priority := 1, shortcuts := [], nullish := False \<rparr>) \<and>
                  lookupShortcut infos1 nm key = Some shortcut)) \<and>
            (\<forall>r doc. net w u (this_reload this) = Fulfilled r \<and> status r = 200 \<and>
                  yamlLoad w (body r) = Document (Mapping doc) \<and> map_of doc (toStr k) = None \<longrightarrow>
               (\<exists>infos1 this1.
                  includeStep w nm key infos this = Inr (infos1, this1) \<and>
                  map_of infos1 =
                    (map_of infos)
                      (s \<mapsto> (getInitalNamespaceInfo (this_github this) (NsString s))
                              \<lparr> priority := 1,
                                shortcuts := map (\<lambda>(k, v). (k, normalizeRaw v)) doc,
                                nullish := False \<rparr>) \<and>
                  lookupShortcut infos1 nm key = Some shortcut)) \<and>
            (\<forall>r. net w u (this_reload this) = Fulfilled r \<and> status r = 200 \<and>
                  (yamlLoad w (body r) = Document Nothing \<or>
                   (\<exists>t. yamlLoad w (body r) = Document (Text t) \<and> t \<noteq> [])) \<longrightarrow>
               includeStep w nm key infos this = Inl TypeError))"
proof (intro conjI allI impI)
  fix k
  assume "includeOf shortcut = IncludeKey k \<and> lookupShortcut infos nm (toStr k) = None"
  then show "includeStep w nm key infos this = Inr (infos, this)"
    using assms by (simp add: includeStep_def assign_def storeShortcut_same)
next
  fix k ns d
  assume "includeOf shortcut = IncludeFrom k ns \<and> map_of infos (toStr ns) = Some d \<and>
          map_of (shortcuts d) (toStr k) = None"
  then show "includeStep w nm key infos this =
               (if nullish d then Inl TypeError else Inr (infos, this))"
    using assms
    by (simp add: includeStep_def getShortcutFromNamespace_def assign_def storeShortcut_same)
next
  fix k ns
  assume "includeOf shortcut = IncludeFrom k ns \<and> map_of infos (toStr ns) = None \<and>
          toStr ns \<in> set objectPrototypeKeys"
  then show "includeStep w nm key infos this = Inl TypeError"
    using assms by (simp add: includeStep_def getShortcutFromNamespace_def)
next
  fix k s u
  assume h: "includeOf shortcut = IncludeFrom k (JStr s) \<and>
            map_of infos s = None \<and> s \<notin> set objectPrototypeKeys \<and>
            url (getInitalNamespaceInfo (this_github this) (NsString s)) = Some u \<and>
            settleOrder w [(1, u)] = [(1, u)]"
  assume "net w u (this_reload this) = Rejected"
  with h getShortcutFromNamespace_on_demand(1)[of infos s this u w k]
  show "includeStep w nm key infos this = Inl NetworkError"
    using assms by (simp add: includeStep_def)
next
  fix k s u r
  assume h: "includeOf shortcut = IncludeFrom k (JStr s) \<and>
            map_of infos s = None \<and> s \<notin> set objectPrototypeKeys \<and>
            url (getInitalNamespaceInfo (this_github this) (NsString s)) = Some u \<and>
            settleOrder w [(1, u)] = [(1, u)]"
  assume r: "net w u (this_reload this) = Fulfilled r \<and>
             (status r \<noteq> 200 \<or> (\<exists>msg. yamlLoad w (body r) = YamlError msg))"
  define d where "d = (getInitalNamespaceInfo (this_github this) (NsString s)) \<lparr> priority := 1 \<rparr>"
  define infos1 where "infos1 = infos @ [(s, d \<lparr> shortcuts := [], nullish := False \<rparr>)]"
  from r have quiet: "\<not> verifyThrows w (Some r)"
    and loaded: "loadedShortcuts w (Some r) = ([], False)"
    by (auto simp: verifyThrows_def loadedShortcuts_def)
  then have fill: "filled w (Some r) d = d \<lparr> shortcuts := [], nullish := False \<rparr>"
    by (simp add: filled_def)
  from getShortcutFromNamespace_on_demand(4)[of infos s this u w r k] h r quiet loaded
  obtain this1 where
    got: "getShortcutFromNamespace w k (JStr s) infos this = Inr (None, infos1, this1)"
    by (auto simp: infos1_def d_def[symmetric] fill simp del: getInitalNamespaceInfo.simps)
  from assms h have "nm \<noteq> s"
    by (auto simp: lookupShortcut_def split: option.splits)
  with assms have kept: "lookupShortcut infos1 nm key = Some shortcut"
    by (auto simp: lookupShortcut_def infos1_def map_add_def split: option.splits)
  have "includeStep w nm key infos this = Inr (infos1, this1)"
    using assms h got kept by (simp add: includeStep_def assign_def storeShortcut_same)
  moreover have "map_of infos1 = (map_of infos)(s \<mapsto> d \<lparr> shortcuts := [], nullish := False \<rparr>)"
    using h by (auto simp: infos1_def map_add_def fun_eq_iff split: option.splits)
  ultimately show "\<exists>infos1 this1.
      includeStep w nm key infos this = Inr (infos1, this1) \<and>
      map_of infos1 =
        (map_of infos)
          (s \<mapsto> (getInitalNamespaceInfo (this_github this) (NsString s))
                  \<lparr> priority := 1, shortcuts := [], nullish := False \<rparr>) \<and>
      lookupShortcut infos1 nm key = Some shortcut"
    using kept unfolding d_def by auto
next
  fix k s u r doc
  assume h: "includeOf shortcut = IncludeFrom k (JStr s) \<and>
            map_of infos s = None \<and> s \<notin> set objectPrototypeKeys \<and>
            url (getInitalNamespaceInfo (this_github this) (NsString s)) = Some u \<and>
            settleOrder w [(1, u)] = [(1, u)]"
  assume r: "net w u (this_reload this) = Fulfilled r \<and> status r = 200 \<and>
             yamlLoad w (body r) = Document (Mapping doc) \<and> map_of doc (toStr k) = None"
  define d where "d = (getInitalNamespaceInfo (this_github this) (NsString s)) \<lparr> priority := 1 \<rparr>"
  define sc where "sc = map (\<lambda>(k, v). (k, normalizeRaw v)) doc"
  define infos1 where "infos1 = infos @ [(s, d \<lparr> shortcuts := sc, nullish := False \<rparr>)]"
  from r have quiet: "\<not> verifyThrows w (Some r)"
    and loaded: "loadedShortcuts w (Some r) = (sc, False)"
    by (auto simp: verifyThrows_def loadedShortcuts_def sc_def)
  then have fill: "filled w (Some r) d = d \<lparr> shortcuts := sc, nullish := False \<rparr>"
    by (simp add: filled_def)
  from r have "map_of sc (toStr k) = None"
    by (simp add: sc_def map_of_values)
  with getShortcutFromNamespace_on_demand(4)[of infos s this u w r k] h r quiet loaded
  obtain this1 where
    got: "getShortcutFromNamespace w k (JStr s) infos this = Inr (None, infos1, this1)"
    by (auto simp: infos1_def d_def[symmetric] fill simp del: getInitalNamespaceInfo.simps)
  from assms h have "nm \<noteq> s"
    by (auto simp: lookupShortcut_def split: option.splits)
  with assms have kept: "lookupShortcut infos1 nm key = Some shortcut"
    by (auto simp: lookupShortcut_def infos1_def map_add_def split: option.splits)
  have "includeStep w nm key infos this = Inr (infos1, this1)"
    using assms h got kept by (simp add: includeStep_def assign_def storeShortcut_same)
  moreover have "map_of infos1 = (map_of infos)(s \<mapsto> d \<lparr> shortcuts := sc, nullish := False \<rparr>)"
    using h by (auto simp: infos1_def map_add_def fun_eq_iff split: option.splits)
  ultimately show "\<exists>infos1 this1.
      includeStep w nm key infos this = Inr (infos1, this1) \<and>
      map_of infos1 =
        (map_of infos)
          (s \<mapsto> (getInitalNamespaceInfo (this_github this) (NsString s))
                  \<lparr> priority := 1,
                    shortcuts := map (\<lambda>(k, v). (k, normalizeRaw v)) doc,
                    nullish := False \<rparr>) \<and>
      lookupShortcut infos1 nm key = Some shortcut"
    using kept unfolding d_def sc_def by auto
next
  fix k s u r
  assume h: "includeOf shortcut = IncludeFrom k (JStr s) \<and>
            map_of infos s = None \<and> s \<notin> set objectPrototypeKeys \<and>
            url (getInitalNamespaceInfo (this_github this) (NsString s)) = Some u \<and>
            settleOrder w [(1, u)] = [(1, u)]"
  assume r: "net w u (this_reload this) = Fulfilled r \<and> status r = 200 \<and>
             (yamlLoad w (body r) = Document Nothing \<or>
              (\<exists>t. yamlLoad w (body r) = Document (Text t) \<and> t \<noteq> []))"
  have "getShortcutFromNamespace w k (JStr s) infos this = Inl TypeError"
  proof (cases "verifyThrows w (Some r)")
    case True
    with getShortcutFromNamespace_on_demand(2)[of infos s this u w r k] h r
    show ?thesis by simp
  next
    case False
    with r have "yamlLoad w (body r) = Document Nothing"
      by (auto simp: verifyThrows_def)
    with r have "snd (loadedShortcuts w (Some r))"
      by (simp add: loadedShortcuts_def)
    with getShortcutFromNamespace_on_demand(3)[of infos s this u w r k] h r False
    show ?thesis by simp
  qed
  then show "includeStep w nm key infos this = Inl TypeError"
    using assms h by (simp add: includeStep_def)
qed

theorem includeStep_missing_target_keeps_entry_witness:
  "lookupShortcut
     [siteNamespace ''o'' 1
        [(''y 0'', [(''include'', JObj [(''key'', JStr ''x 1''), (''namespace'', JStr ''jane'')]),
                    (''title'', JStr ''Y'')]),
         (''z 0'', [(''include'', JObj [(''key'', JStr ''x 1'')])])]]
     ''o'' ''y 0'' =
     Some [(''include'', JObj [(''key'', JStr ''x 1''), (''namespace'', JStr ''jane'')]),
           (''title'', JStr ''Y'')] \<and>
   (\<exists>infos1 this1.
      includeStep (testWorld [(githubUrl ''jane'', 404, [])] []) ''o'' ''y 0''
        [siteNamespace ''o'' 1
           [(''y 0'', [(''include'', JObj [(''key'', JStr ''x 1''), (''namespace'', JStr ''jane'')]),
                       (''title'', JStr ''Y'')]),
            (''z 0'', [(''include'', JObj [(''key'', JStr ''x 1'')])])]]
        freshThis = Inr (infos1, this1) \<and>
      map_of infos1 ''jane'' =
        Some \<lparr> name = Some ''jane'', type = Some ''user'', url = Some (githubUrl ''jane''),
               github = Some ''jane'', priority = 1, shortcuts = [], nullish = False \<rparr> \<and>
      lookupShortcut infos1 ''o'' ''y 0'' =
        Some [(''include'', JObj [(''key'', JStr ''x 1''), (''namespace'', JStr ''jane'')]),
              (''title'', JStr ''Y'')])"
proof -
  let ?y = "[(''include'', JObj [(''key'', JStr ''x 1''), (''namespace'', JStr ''jane'')]),
             (''title'', JStr ''Y'')]"
  let ?infos = "[siteNamespace ''o'' 1
        [(''y 0'', ?y), (''z 0'', [(''include'', JObj [(''key'', JStr ''x 1'')])])]]"
  let ?w = "testWorld [(githubUrl ''jane'', 404, [])] []"
  let ?r = "\<lparr> status = 404, responseUrl = githubUrl ''jane'', body = [] \<rparr>"
  have look: "lookupShortcut ?infos ''o'' ''y 0'' = Some ?y"
    by (simp add: include_defs)
  have pre: "includeOf ?y = IncludeFrom (JStr ''x 1'') (JStr ''jane'') \<and>
            map_of ?infos ''jane'' = None \<and> ''jane'' \<notin> set objectPrototypeKeys \<and>
            url (getInitalNamespaceInfo (this_github freshThis) (NsString ''jane'')) =
              Some (githubUrl ''jane'') \<and>
            settleOrder ?w [(1, githubUrl ''jane'')] = [(1, githubUrl ''jane'')]"
    by (simp add: include_defs testWorld_def githubUrl_def objectPrototypeKeys_def
          addFetchUrlToGithubNamespace_def Let_def)
  have settled: "net ?w (githubUrl ''jane'') (this_reload freshThis) = Fulfilled ?r \<and>
            (status ?r \<noteq> 200 \<or> (\<exists>msg. yamlLoad ?w (body ?r) = YamlError msg))"
    by (simp add: testWorld_def githubUrl_def)
  from includeStep_missing_target_keeps_entry[OF look, THEN conjunct2, THEN conjunct2,
         THEN conjunct2, rule_format, OF pre, THEN conjunct2, THEN conjunct1, rule_format,
         OF settled]
  obtain infos1 this1 where
    step: "includeStep ?w ''o'' ''y 0'' ?infos freshThis = Inr (infos1, this1)"
    and joined: "map_of infos1 =
      (map_of ?infos)
        (''jane'' \<mapsto> (getInitalNamespaceInfo (this_github freshThis) (NsString ''jane''))
                       \<lparr> priority := 1, shortcuts := [], nullish := False \<rparr>)"
    and kept: "lookupShortcut infos1 ''o'' ''y 0'' = Some ?y"
    by blast
  have "map_of infos1 ''jane'' =
        Some \<lparr> name = Some ''jane'', type = Some ''user'', url = Some (githubUrl ''jane''),
               github = Some ''jane'', priority = 1, shortcuts = [], nullish = False \<rparr>"
    unfolding joined
    by (simp add: addFetchUrlToGithubNamespace_def githubUrl_def Let_def freshThis_def)
  with look step kept show ?thesis by blast
qed

text \<open>The claim as stated has include resolution never throw at an include whose target
  is missing. The entry \<open>y 0\<close> includes \<open>x 1\<close> of \<open>jane\<close>, which is fetched on demand.
  When that fetch rejects, the step throws the rejection; when it answers 200 with an
  empty body, the shortcuts of \<open>jane\<close> are \<open>undefined\<close> and the lookup in them throws;
  and when \<open>jane\<close> is known from an empty document, the lookup throws as well.\<close>

theorem includeStep_on_demand_failure_throws_counterexample:
  "includeStep (loadWorld [] []) ''o'' ''y 0''
     [siteNamespace ''o'' 1
        [(''y 0'', [(''include'', JObj [(''key'', JStr ''x 1''), (''namespace'', JStr ''jane'')]),
                    (''title'', JStr ''Y'')])]]
     freshThis = Inl NetworkError \<and>
   includeStep (loadWorld [(githubUrl ''jane'', 200, [])] []) ''o'' ''y 0''
     [siteNamespace ''o'' 1
        [(''y 0'', [(''include'', JObj [(''key'', JStr ''x 1''), (''namespace'', JStr ''jane'')]),
                    (''title'', JStr ''Y'')])]]
     freshThis = Inl TypeError \<and>
   fetchShortcuts (loadWorld [(githubUrl ''jane'', 200, [])] [])
     [NsString ''jane''] False False freshThis =
     Inr ([(''jane'', \<lparr> name = Some ''jane'', type = Some ''user'', url = Some (githubUrl ''jane''),
                        github = Some ''jane'', priority = 1, shortcuts = [],
                        nullish = True \<rparr>)],
          freshThis \<lparr> logged := [''.''] \<rparr>) \<and>
   includeStep (loadWorld [] []) ''o'' ''y 0''
     [siteNamespace ''o'' 2
        [(''y 0'', [(''include'', JObj [(''key'', JStr ''x 1''), (''namespace'', JStr ''jane'')]),
                    (''title'', JStr ''Y'')])],
      (''jane'', \<lparr> name = Some ''jane'', type = Some ''user'', url = Some (githubUrl ''jane''),
                   github = Some ''jane'', priority = 1, shortcuts = [],
                   nullish = True \<rparr>)]
     freshThis = Inl TypeError"
  by (simp add: eval_defs include_defs getShortcutFromNamespace_def assignInfos_def
        objectPrototypeKeys_def)

lemma includeOf_same:
  "map_of e' ''include'' = map_of e ''include'' \<Longrightarrow> includeOf e' = includeOf e"
  by (simp add: includeOf_def)

lemma includeOf_has_include:
  "includeOf e = IncludeKey k \<or> includeOf e = IncludeFrom k ns \<Longrightarrow> map_of e ''include'' \<noteq> None"
  by (auto simp: includeOf_def split: option.splits)

lemma assign_map_of:
  "map_of (assign e (Some t)) = map_of e ++ map_of (rev t)"
  by (simp add: assign_def map_of_fold_update)

lemma assign_keeps_include:
  assumes "map_of e ''include'' \<noteq> None"
  shows "map_of (assign e T) ''include'' \<noteq> None"
proof (cases T)
  case None
  with assms show ?thesis by (simp add: assign_def)
next
  case (Some t)
  with assms show ?thesis
    by (auto simp: assign_map_of map_add_def split: option.splits)
qed

lemma assign_plain_target:
  assumes "\<forall>t. T = Some t \<longrightarrow> map_of t ''include'' = None"
  shows "map_of (assign e T) ''include'' = map_of e ''include''"
proof (cases T)
  case None
  then show ?thesis by (simp add: assign_def)
next
  case (Some t)
  with assms have "''include'' \<notin> fst ` set t"
    by (simp add: map_of_eq_None_iff)
  then have "map_of (rev t) ''include'' = None"
    by (simp add: map_of_eq_None_iff)
  with Some show ?thesis
    by (simp add: assign_map_of map_add_def)
qed

lemma fold_update_triv:
  "\<forall>(p, v) \<in> set t. map_of e p = Some v \<Longrightarrow> fold (\<lambda>(p, v) m. AList.update p v m) t e = e"
  by (induction t) (auto simp: update_triv)

lemma assign_idem:
  assumes "\<forall>t. T = Some t \<longrightarrow> distinct (map fst t)"
  shows "assign (assign e T) T = assign e T"
proof (cases T)
  case None
  then show ?thesis by (simp add: assign_def)
next
  case (Some t)
  with assms have d: "distinct (map fst t)" by simp
  have "\<forall>(p, v) \<in> set t. map_of (assign e (Some t)) p = Some v"
    using d by (auto simp: assign_fields)
  then show ?thesis
    unfolding Some by (subst (1) assign_def) (simp add: fold_update_triv)
qed

lemma lookup_store_other:
  "n \<noteq> nm \<or> k \<noteq> key \<Longrightarrow>
   lookupShortcut (storeShortcut infos nm key e) n k = lookupShortcut infos n k"
  by (auto simp: lookupShortcut_def storeShortcut_def update_conv' split: option.splits)

lemma store_known:
  "(map_of (storeShortcut infos nm key e) n \<noteq> None) = (map_of infos n \<noteq> None)"
  by (auto simp: storeShortcut_def update_conv' split: option.splits)

lemma readable_known: "readable infos n \<Longrightarrow> map_of infos n \<noteq> None"
  by (auto simp: readable_def split: option.splits)

lemma store_readable:
  "readable (storeShortcut infos nm key e) n = readable infos n"
  by (auto simp: readable_def storeShortcut_def update_conv' split: option.splits)

lemma keepsKnown_readable:
  "keepsKnown infos infos' \<Longrightarrow> readable infos n \<Longrightarrow> readable infos' n"
  by (auto simp: keepsKnown_def readable_def split: option.splits)

lemma fetchLoop_names:
  assumes "fetchLoop w reload debug responses infos this = Inr (new, this1)"
  shows "map fst new = map fst infos"
  using assms fetchLoop_result[of infos w responses reload debug this]
  by (auto simp: case_prod_beta comp_def split: if_splits)

lemma fetchShortcuts_names:
  assumes "fetchShortcuts w nss reload debug this = Inr (new, this1)"
  shows "map fst new = map fst (getInitialNamespaceInfos (this_github this) nss)"
proof (cases "promiseAll (\<lambda>u. net w u reload)
      (settleOrder w (startFetches (getInitialNamespaceInfos (this_github this) nss))) Map.empty")
  case (Inl e)
  with assms show ?thesis by (simp add: fetchShortcuts_def Let_def)
next
  case (Inr responses)
  with assms have "fetchLoop w reload debug responses
                     (getInitialNamespaceInfos (this_github this) nss) this = Inr (new, this1)"
    by (simp add: fetchShortcuts_def Let_def)
  then show ?thesis
    by (rule fetchLoop_names)
qed

lemma getShortcutFromNamespace_shape:
  assumes "getShortcutFromNamespace w k ns infos this = Inr (t, infos1, this1)"
  shows "keepsKnown infos infos1 \<and> t = lookupShortcut infos1 (toStr ns) (toStr k) \<and>
         readable infos1 (toStr ns)"
proof (cases "map_of infos (toStr ns) \<noteq> None")
  case True
  with assms show ?thesis
    by (auto simp: getShortcutFromNamespace_def Let_def keepsKnown_def lookupShortcut_def
          readable_def split: if_splits)
next
  case False
  with assms obtain s new where ns: "ns = JStr s"
    and fetched: "fetchShortcuts w [NsString s] (this_reload this) (this_debug this) this = Inr (new, this1)"
    and infos1: "infos1 = assignInfos infos new"
    and found: "readable infos1 (toStr ns)"
    and t: "t = lookupShortcut infos1 (toStr ns) (toStr k)"
    by (auto simp: getShortcutFromNamespace_def Let_def lookupShortcut_def readable_def
             split: if_splits jsval.splits sum.splits option.splits)
  from fetchShortcuts_names[OF fetched] have names: "map fst new = [s]"
    by (simp add: getInitialNamespaceInfos_single)
  have "keepsKnown infos infos1"
    unfolding keepsKnown_def
  proof (intro allI impI)
    fix n
    assume known: "map_of infos n \<noteq> None"
    with False ns have "n \<noteq> s" by auto
    with names have "n \<notin> fst ` set (rev new)"
      by (metis list.set(1) list.simps(15) set_map set_rev singletonD)
    then have "map_of (rev new) n = None"
      by (simp add: map_of_eq_None_iff)
    then show "map_of infos1 n = map_of infos n"
      by (simp add: infos1 assignInfos_def map_of_fold_update map_add_def)
  qed
  with t found show ?thesis by simp
qed

lemma keepsKnown_lookup:
  "keepsKnown infos infos' \<Longrightarrow> map_of infos n \<noteq> None \<Longrightarrow>
   lookupShortcut infos' n k = lookupShortcut infos n k"
  by (simp add: keepsKnown_def lookupShortcut_def)

lemma includeStep_shape:
  assumes "includeStep w nm key infos this = Inr (infos', this')"
    and "lookupShortcut infos nm key = Some e"
  shows "\<exists>infosF. keepsKnown infos infosF \<and>
           infos' = storeShortcut infosF nm key (assign e (includeTarget infosF nm e)) \<and>
           (\<forall>k ns. includeOf e = IncludeFrom k ns \<longrightarrow> readable infosF (toStr ns))"
proof (cases "includeOf e")
  case NoInclude
  with assms have "infos' = infos" by (simp add: includeStep_def)
  moreover have "storeShortcut infos nm key (assign e (includeTarget infos nm e)) = infos"
    using NoInclude assms(2) by (simp add: includeTarget_def assign_def storeShortcut_same)
  ultimately show ?thesis
    using NoInclude by (auto simp: keepsKnown_def)
next
  case IncorrectInclude
  with assms have "infos' = infos" by (simp add: includeStep_def)
  moreover have "storeShortcut infos nm key (assign e (includeTarget infos nm e)) = infos"
    using IncorrectInclude assms(2) by (simp add: includeTarget_def assign_def storeShortcut_same)
  ultimately show ?thesis
    using IncorrectInclude by (auto simp: keepsKnown_def)
next
  case (IncludeKey k)
  with assms have "infos' = storeShortcut infos nm key (assign e (includeTarget infos nm e))"
    by (simp add: includeStep_def includeTarget_def)
  then show ?thesis
    using IncludeKey by (auto simp: keepsKnown_def)
next
  case (IncludeFrom k ns)
  with assms obtain t infos1 where
    got: "getShortcutFromNamespace w k ns infos this = Inr (t, infos1, this')"
    and res: "infos' = storeShortcut infos1 nm key (assign e t)"
    by (auto simp: includeStep_def split: sum.splits)
  from getShortcutFromNamespace_shape[OF got] res IncludeFrom show ?thesis
    by (auto simp: includeTarget_def)
qed

lemma evolves_refl: "evolves infos infos"
  by (simp add: evolves_def)

lemma evolves_trans:
  assumes "evolves a b" and "evolves b c"
  shows "evolves a c"
  unfolding evolves_def
proof (intro conjI allI impI)
  fix n assume "map_of a n \<noteq> None"
  with assms show "map_of c n \<noteq> None" by (simp add: evolves_def)
next
  fix n k x assume "lookupShortcut a n k = Some x"
  with assms(1) obtain y where y: "lookupShortcut b n k = Some y"
      "y = x \<or> (map_of x ''include'' \<noteq> None \<and> map_of y ''include'' \<noteq> None)"
    unfolding evolves_def by blast
  from y(1) assms(2) obtain z where z: "lookupShortcut c n k = Some z"
      "z = y \<or> (map_of y ''include'' \<noteq> None \<and> map_of z ''include'' \<noteq> None)"
    unfolding evolves_def by blast
  from y(2) z show "\<exists>x'. lookupShortcut c n k = Some x' \<and>
      (x' = x \<or> (map_of x ''include'' \<noteq> None \<and> map_of x' ''include'' \<noteq> None))"
    by auto
next
  fix n k assume h: "map_of a n \<noteq> None \<and> lookupShortcut a n k = None"
  with assms(1) have "map_of b n \<noteq> None \<and> lookupShortcut b n k = None"
    unfolding evolves_def by blast
  with assms(2) show "lookupShortcut c n k = None"
    unfolding evolves_def by blast
qed

lemma lookup_known: "lookupShortcut infos n k = Some x \<Longrightarrow> map_of infos n \<noteq> None"
  by (auto simp: lookupShortcut_def split: option.splits)

lemma includeStep_evolves:
  assumes "includeStep w nm key infos this = Inr (infos', this')"
  shows "evolves infos infos' \<and>
         (\<forall>n k. (n \<noteq> nm \<or> k \<noteq> key) \<and> map_of infos n \<noteq> None \<longrightarrow>
                lookupShortcut infos' n k = lookupShortcut infos n k)"
proof (cases "lookupShortcut infos nm key")
  case None
  with assms have "infos' = infos" by (simp add: includeStep_def)
  then show ?thesis by (simp add: evolves_refl)
next
  case (Some e)
  from includeStep_shape[OF assms Some] obtain infosF where
    ext: "keepsKnown infos infosF"
    and res: "infos' = storeShortcut infosF nm key (assign e (includeTarget infosF nm e))"
    by blast
  from Some have nm: "map_of infos nm \<noteq> None" by (rule lookup_known)
  with ext have nmF: "map_of infosF nm \<noteq> None" by (simp add: keepsKnown_def)
  have others: "lookupShortcut infos' n k = lookupShortcut infos n k"
    if "n \<noteq> nm \<or> k \<noteq> key" "map_of infos n \<noteq> None" for n k
    using that ext by (simp add: res lookup_store_other keepsKnown_lookup)
  have own: "lookupShortcut infos' nm key = Some (assign e (includeTarget infosF nm e))"
    unfolding res using nmF by (rule lookup_storeShortcut)
  have "evolves infos infos'"
    unfolding evolves_def
  proof (intro conjI allI impI)
    fix n assume "map_of infos n \<noteq> None"
    with ext have "map_of infosF n \<noteq> None" by (simp add: keepsKnown_def)
    then show "map_of infos' n \<noteq> None"
      unfolding res using store_known[of infosF nm key _ n] by blast
  next
    fix n k x assume x: "lookupShortcut infos n k = Some x"
    then have known: "map_of infos n \<noteq> None" by (rule lookup_known)
    show "\<exists>x'. lookupShortcut infos' n k = Some x' \<and>
           (x' = x \<or> (map_of x ''include'' \<noteq> None \<and> map_of x' ''include'' \<noteq> None))"
    proof (cases "n \<noteq> nm \<or> k \<noteq> key")
      case True
      with others known x show ?thesis by simp
    next
      case False
      with x Some have xe: "x = e" by simp
      show ?thesis
      proof (cases "map_of e ''include''")
        case None
        then have "includeOf e = NoInclude" by (simp add: includeOf_def)
        then have "assign e (includeTarget infosF nm e) = e"
          by (simp add: includeTarget_def assign_def)
        with own False xe show ?thesis by simp
      next
        case (Some v)
        then have "map_of (assign e (includeTarget infosF nm e)) ''include'' \<noteq> None"
          by (intro assign_keeps_include) simp
        with own False xe Some show ?thesis by simp
      qed
    qed
  next
    fix n k assume h: "map_of infos n \<noteq> None \<and> lookupShortcut infos n k = None"
    with Some have "n \<noteq> nm \<or> k \<noteq> key" by auto
    with others h show "lookupShortcut infos' n k = None" by simp
  qed
  with others show ?thesis by simp
qed

lemma addIncludesLoop_evolves:
  assumes "addIncludesLoop w nm keys infos this = Inr (infos1, this1)"
  shows "evolves infos infos1 \<and>
         (\<forall>n k. (n \<noteq> nm \<or> k \<notin> set keys) \<and> map_of infos n \<noteq> None \<longrightarrow>
                lookupShortcut infos1 n k = lookupShortcut infos n k)"
  using assms
proof (induction keys arbitrary: infos this)
  case Nil
  then show ?case by (simp add: evolves_refl)
next
  case (Cons key keys)
  from Cons.prems obtain infos' this' where
    step: "includeStep w nm key infos this = Inr (infos', this')"
    and rest: "addIncludesLoop w nm keys infos' this' = Inr (infos1, this1)"
    by (auto split: sum.splits)
  note s = includeStep_evolves[OF step]
  note r = Cons.IH[OF rest]
  have "evolves infos infos1"
    using s r evolves_trans by blast
  moreover have "lookupShortcut infos1 n k = lookupShortcut infos n k"
    if h: "(n \<noteq> nm \<or> k \<notin> set (key # keys)) \<and> map_of infos n \<noteq> None" for n k
  proof -
    from h s have a: "lookupShortcut infos' n k = lookupShortcut infos n k" by auto
    from h s have "map_of infos' n \<noteq> None" by (simp add: evolves_def)
    with h r have "lookupShortcut infos1 n k = lookupShortcut infos' n k" by auto
    with a show ?thesis by simp
  qed
  ultimately show ?case by blast
qed

lemma includeStep_readable:
  assumes "includeStep w nm key infos this = Inr (infos', this')" and "readable infos n"
  shows "readable infos' n"
proof (cases "lookupShortcut infos nm key")
  case None
  with assms show ?thesis by (simp add: includeStep_def)
next
  case (Some e)
  from includeStep_shape[OF assms(1) Some] obtain infosF where
    ext: "keepsKnown infos infosF"
    and res: "infos' = storeShortcut infosF nm key (assign e (includeTarget infosF nm e))"
    by blast
  from ext assms(2) have "readable infosF n" by (rule keepsKnown_readable)
  then show ?thesis by (simp add: res store_readable)
qed

lemma addIncludesLoop_readable:
  assumes "addIncludesLoop w nm keys infos this = Inr (infos1, this1)" and "readable infos n"
  shows "readable infos1 n"
  using assms
proof (induction keys arbitrary: infos this)
  case Nil
  then show ?case by simp
next
  case (Cons key keys)
  from Cons.prems(1) obtain infos' this' where
    step: "includeStep w nm key infos this = Inr (infos', this')"
    and rest: "addIncludesLoop w nm keys infos' this' = Inr (infos1, this1)"
    by (auto split: sum.splits)
  from step Cons.prems(2) have "readable infos' n" by (rule includeStep_readable)
  with rest show ?case by (rule Cons.IH)
qed

lemma settled_step:
  assumes "\<forall>key e. lookupShortcut infos nm key = Some e \<longrightarrow> settledEntry infos nm e"
  shows "\<exists>this'. includeStep w nm key infos this = Inr (infos, this')"
proof (cases "lookupShortcut infos nm key")
  case None
  then show ?thesis by (simp add: includeStep_def)
next
  case (Some e)
  with assms have st: "settledEntry infos nm e" by simp
  show ?thesis
  proof (cases "includeOf e")
    case NoInclude
    with Some show ?thesis by (simp add: includeStep_def)
  next
    case IncorrectInclude
    with Some show ?thesis by (simp add: includeStep_def)
  next
    case (IncludeKey k)
    with st have "assign e (lookupShortcut infos nm (toStr k)) = e"
      by (simp add: settledEntry_def includeTarget_def)
    with Some IncludeKey show ?thesis
      by (simp add: includeStep_def storeShortcut_same)
  next
    case (IncludeFrom k ns)
    with st have known: "readable infos (toStr ns)"
      and same: "assign e (lookupShortcut infos (toStr ns) (toStr k)) = e"
      by (simp_all add: settledEntry_def includeTarget_def)
    from known have "getShortcutFromNamespace w k ns infos this =
        Inr (lookupShortcut infos (toStr ns) (toStr k), infos, this)"
      by (auto simp: getShortcutFromNamespace_def readable_def lookupShortcut_def
            split: option.splits)
    with Some IncludeFrom same show ?thesis
      by (simp add: includeStep_def storeShortcut_same)
  qed
qed

lemma settled_loop:
  assumes "\<forall>key e. lookupShortcut infos nm key = Some e \<longrightarrow> settledEntry infos nm e"
  shows "\<exists>this'. addIncludesLoop w nm keys infos this = Inr (infos, this')"
proof (induction keys arbitrary: this)
  case Nil
  show ?case by simp
next
  case (Cons key keys)
  from settled_step[OF assms, of w key this] obtain this' where
    "includeStep w nm key infos this = Inr (infos, this')" by blast
  with Cons.IH[of this'] show ?case by auto
qed

lemma includeTarget_plain:
  "map_of e ''include'' = None \<Longrightarrow> includeTarget infos nm e = None"
  by (simp add: includeTarget_def includeOf_def)

lemma includeTarget_same:
  "map_of e' ''include'' = map_of e ''include'' \<Longrightarrow> includeTarget infos nm e' = includeTarget infos nm e"
  using includeOf_same[of e' e] by (simp add: includeTarget_def)

text \<open>The place an include names, when the entry has one.\<close>

lemma includeTarget_place:
  assumes "map_of e ''include'' \<noteq> None" and "includeTarget infosF nm e \<noteq> None \<or> includeTarget infos1 nm e \<noteq> None"
  shows "\<exists>n k. (\<forall>infos. includeTarget infos nm e = lookupShortcut infos n k) \<and>
               (n = nm \<or> (\<exists>kk ns. includeOf e = IncludeFrom kk ns \<and> n = toStr ns))"
proof (cases "includeOf e")
  case NoInclude
  with assms(2) show ?thesis by (simp add: includeTarget_def)
next
  case IncorrectInclude
  with assms(2) show ?thesis by (simp add: includeTarget_def)
next
  case (IncludeKey kk)
  then have "\<forall>infos. includeTarget infos nm e = lookupShortcut infos nm (toStr kk)"
    by (simp add: includeTarget_def)
  then show ?thesis by blast
next
  case (IncludeFrom kk ns)
  then have "\<forall>infos. includeTarget infos nm e = lookupShortcut infos (toStr ns) (toStr kk)"
    by (simp add: includeTarget_def)
  with IncludeFrom show ?thesis by blast
qed

lemma addIncludesLoop_settles:
  assumes "addIncludesLoop w nm keys infos this = Inr (infos1, this1)"
    and "distinct keys"
    and "\<forall>k \<in> set keys. lookupShortcut infos nm k \<noteq> None"
    and "\<forall>k \<in> set keys. \<forall>e t. lookupShortcut infos nm k = Some e \<and> includeTarget infos1 nm e = Some t \<longrightarrow>
           map_of t ''include'' = None \<and> distinct (map fst t)"
  shows "\<forall>k \<in> set keys. \<forall>e1. lookupShortcut infos1 nm k = Some e1 \<longrightarrow> settledEntry infos1 nm e1"
  using assms
proof (induction keys arbitrary: infos this)
  case Nil
  show ?case by simp
next
  case (Cons key keys)
  from Cons.prems(1) obtain infos' this' where
    step: "includeStep w nm key infos this = Inr (infos', this')"
    and rest: "addIncludesLoop w nm keys infos' this' = Inr (infos1, this1)"
    by (auto split: sum.splits)
  from Cons.prems(3) obtain e where e: "lookupShortcut infos nm key = Some e"
    by auto
  then have nm: "map_of infos nm \<noteq> None" by (rule lookup_known)
  from Cons.prems(2) have fresh: "key \<notin> set keys" and dist: "distinct keys" by simp_all
  note s_others = includeStep_evolves[OF step, THEN conjunct2, rule_format]
  note r = addIncludesLoop_evolves[OF rest, THEN conjunct1]
  note r_others = addIncludesLoop_evolves[OF rest, THEN conjunct2, rule_format]
  from includeStep_shape[OF step e] obtain infosF where
    ext: "keepsKnown infos infosF"
    and res: "infos' = storeShortcut infosF nm key (assign e (includeTarget infosF nm e))"
    and from_readable: "\<forall>k ns. includeOf e = IncludeFrom k ns \<longrightarrow> readable infosF (toStr ns)"
    by blast
  from from_readable
  have from_known: "\<forall>k ns. includeOf e = IncludeFrom k ns \<longrightarrow> map_of infosF (toStr ns) \<noteq> None"
    using readable_known by blast
  define T0 where "T0 = includeTarget infosF nm e"
  define T1 where "T1 = includeTarget infos1 nm e"
  define e0 where "e0 = assign e T0"
  from nm ext have nmF: "map_of infosF nm \<noteq> None" by (simp add: keepsKnown_def)
  then have nm': "map_of infos' nm \<noteq> None"
    unfolding res using store_known[of infosF nm key _ nm] by blast
  have own': "lookupShortcut infos' nm key = Some e0"
    unfolding res e0_def T0_def using nmF by (rule lookup_storeShortcut)
  have "lookupShortcut infos1 nm key = lookupShortcut infos' nm key"
    by (rule r_others) (use fresh nm' in simp)
  with own' have own1: "lookupShortcut infos1 nm key = Some e0"
    by simp
  from Cons.prems(4) e have H: "\<forall>t. T1 = Some t \<longrightarrow> map_of t ''include'' = None \<and> distinct (map fst t)"
    by (simp add: T1_def)
  have stable: "T1 = T0"
  proof (cases "map_of e ''include'' = None")
    case True
    then show ?thesis by (simp add: T1_def T0_def includeTarget_plain)
  next
    case False
    show ?thesis
    proof (cases "T0 = None \<and> T1 = None")
      case True
      then show ?thesis by simp
    next
      case some: False
      then have "includeTarget infosF nm e \<noteq> None \<or> includeTarget infos1 nm e \<noteq> None"
        by (simp add: T0_def T1_def)
      from includeTarget_place[OF False this] obtain n k where
        place: "\<forall>infos. includeTarget infos nm e = lookupShortcut infos n k"
        and where_n: "n = nm \<or> (\<exists>kk ns. includeOf e = IncludeFrom kk ns \<and> n = toStr ns)"
        by blast
      from where_n nmF from_known have nF: "map_of infosF n \<noteq> None" by auto
      then have n': "map_of infos' n \<noteq> None"
        unfolding res using store_known[of infosF nm key _ n] by blast
      have t0: "T0 = lookupShortcut infosF n k" and t1: "T1 = lookupShortcut infos1 n k"
        using place by (simp_all add: T0_def T1_def)
      show ?thesis
      proof (cases "n = nm \<and> k = key")
        case True
        with t1 own1 have "T1 = Some e0" by simp
        with H have "map_of e0 ''include'' = None" by simp
        moreover have "map_of e0 ''include'' \<noteq> None"
          unfolding e0_def using False by (rule assign_keeps_include)
        ultimately show ?thesis by simp
      next
        case other: False
        then have same': "lookupShortcut infos' n k = T0"
          unfolding res t0 by (intro lookup_store_other) auto
        show ?thesis
        proof (cases T0)
          case None
          with same' n' have "map_of infos' n \<noteq> None \<and> lookupShortcut infos' n k = None"
            by simp
          with r have "lookupShortcut infos1 n k = None"
            unfolding evolves_def by blast
          with None t1 show ?thesis by simp
        next
          case (Some x0)
          with same' have "lookupShortcut infos' n k = Some x0" by simp
          with r obtain x1 where x1: "lookupShortcut infos1 n k = Some x1"
              "x1 = x0 \<or> (map_of x0 ''include'' \<noteq> None \<and> map_of x1 ''include'' \<noteq> None)"
            unfolding evolves_def by blast
          with t1 H have "map_of x1 ''include'' = None" by simp
          with x1 have "x1 = x0" by auto
          with x1(1) t1 Some show ?thesis by simp
        qed
      qed
    qed
  qed
  have plainT: "\<forall>t. T0 = Some t \<longrightarrow> map_of t ''include'' = None"
    and distT: "\<forall>t. T0 = Some t \<longrightarrow> distinct (map fst t)"
    using H stable by simp_all
  have inc0: "map_of e0 ''include'' = map_of e ''include''"
    unfolding e0_def using plainT by (rule assign_plain_target)
  have head: "settledEntry infos1 nm e0"
    unfolding settledEntry_def
  proof (intro conjI allI impI)
    fix k ns assume "includeOf e0 = IncludeFrom k ns"
    with inc0 have "includeOf e = IncludeFrom k ns"
      using includeOf_same[of e0 e] by simp
    with from_readable have "readable infosF (toStr ns)" by simp
    then have "readable infos' (toStr ns)"
      unfolding res by (simp add: store_readable)
    with rest show "readable infos1 (toStr ns)"
      by (rule addIncludesLoop_readable)
  next
    have "includeTarget infos1 nm e0 = T1"
      unfolding T1_def using inc0 by (rule includeTarget_same)
    then show "assign e0 (includeTarget infos1 nm e0) = e0"
      unfolding stable e0_def using distT by (simp add: assign_idem)
  qed
  have same_rest: "lookupShortcut infos' nm k = lookupShortcut infos nm k" if "k \<in> set keys" for k
    by (rule s_others) (use that fresh nm in auto)
  have rest_present: "\<forall>k \<in> set keys. lookupShortcut infos' nm k \<noteq> None"
  proof
    fix k assume k: "k \<in> set keys"
    with Cons.prems(3) have "lookupShortcut infos nm k \<noteq> None" by simp
    with k show "lookupShortcut infos' nm k \<noteq> None" by (simp add: same_rest)
  qed
  have rest_H: "\<forall>k \<in> set keys. \<forall>e t. lookupShortcut infos' nm k = Some e \<and> includeTarget infos1 nm e = Some t \<longrightarrow>
           map_of t ''include'' = None \<and> distinct (map fst t)"
  proof (intro ballI allI impI)
    fix k e t
    assume k: "k \<in> set keys"
      and h: "lookupShortcut infos' nm k = Some e \<and> includeTarget infos1 nm e = Some t"
    from k h have "lookupShortcut infos nm k = Some e \<and> includeTarget infos1 nm e = Some t"
      by (simp add: same_rest)
    moreover from k have "k \<in> set (key # keys)" by simp
    ultimately show "map_of t ''include'' = None \<and> distinct (map fst t)"
      using Cons.prems(4) by blast
  qed
  from Cons.IH[OF rest dist rest_present rest_H]
  have tail: "\<forall>k \<in> set keys. \<forall>e1. lookupShortcut infos1 nm k = Some e1 \<longrightarrow> settledEntry infos1 nm e1" .
  show ?case
  proof (intro ballI allI impI)
    fix k e1 assume k: "k \<in> set (key # keys)" and e1: "lookupShortcut infos1 nm k = Some e1"
    show "settledEntry infos1 nm e1"
    proof (cases "k = key")
      case True
      with e1 own1 head show ?thesis by simp
    next
      case False
      with k have "k \<in> set keys" by simp
      with tail e1 show ?thesis by blast
    qed
  qed
qed

text \<open>
  C8 (as amended). Include resolution is idempotent when no include reaches an entry that
  itself has an include: if a pass over the mapping of a namespace ends, and every entry
  that an include of the mapping names, as it is found after that pass, has no
  \<^verbatim>\<open>include\<close> field, then a second pass over the same mapping, with the namespaces of
  the first pass at hand, ends and leaves every entry of every namespace with exactly
  the fields it had. (An object has every property once: the keys of the mapping and the
  fields of an include target are distinct.)
\<close>

theorem addIncludes_idempotent_without_chains:
  assumes "addIncludes w nm infos this = Inr (infos1, this1)"
    and "distinct (keysOf infos nm)"
    and "\<forall>key e t. lookupShortcut infos nm key = Some e \<and> includeTarget infos1 nm e = Some t \<longrightarrow>
           map_of t ''include'' = None \<and> distinct (map fst t)"
  shows "\<exists>this2. addIncludes w nm infos1 this1 = Inr (infos1, this2)"
proof (cases "map_of infos nm")
  case None
  with assms(1) have "infos1 = infos" "this1 = this"
    by (simp_all add: addIncludes_def keysOf_def)
  with None show ?thesis
    by (simp add: addIncludes_def keysOf_def)
next
  case (Some d)
  have loop: "addIncludesLoop w nm (keysOf infos nm) infos this = Inr (infos1, this1)"
    using assms(1) by (simp add: addIncludes_def)
  have keys: "keysOf infos nm = map fst (shortcuts d)"
    using Some by (simp add: keysOf_def)
  have present: "\<forall>k \<in> set (keysOf infos nm). lookupShortcut infos nm k \<noteq> None"
    using Some by (auto simp: keys lookupShortcut_def map_of_eq_None_iff)
  have H: "\<forall>k \<in> set (keysOf infos nm). \<forall>e t.
             lookupShortcut infos nm k = Some e \<and> includeTarget infos1 nm e = Some t \<longrightarrow>
             map_of t ''include'' = None \<and> distinct (map fst t)"
    using assms(3) by blast
  note settled = addIncludesLoop_settles[OF loop assms(2) present H]
  note ev = addIncludesLoop_evolves[OF loop]
  have all: "\<forall>key e. lookupShortcut infos1 nm key = Some e \<longrightarrow> settledEntry infos1 nm e"
  proof (intro allI impI)
    fix key e assume e: "lookupShortcut infos1 nm key = Some e"
    have "key \<in> set (keysOf infos nm)"
    proof (rule ccontr)
      assume "key \<notin> set (keysOf infos nm)"
      then have "lookupShortcut infos nm key = None"
        using Some by (simp add: keys lookupShortcut_def map_of_eq_None_iff)
      with Some have "map_of infos nm \<noteq> None \<and> lookupShortcut infos nm key = None"
        by simp
      with ev[THEN conjunct1] have "lookupShortcut infos1 nm key = None"
        unfolding evolves_def by blast
      with e show False by simp
    qed
    with settled e show "settledEntry infos1 nm e" by blast
  qed
  from settled_loop[OF all, of w "keysOf infos1 nm" this1] show ?thesis
    by (simp add: addIncludes_def)
qed

theorem addIncludes_idempotent_without_chains_witness:
  "addIncludes (testWorld [] []) ''o''
     [siteNamespace ''o'' 1
        [(''x 1'', [(''url'', JStr ''https://x.example/{%q}''), (''title'', JStr ''T'')]),
         (''y 0'', [(''include'', JObj [(''key'', JStr ''x 1'')]), (''title'', JStr ''Y'')])]]
     freshThis =
   Inr ([siteNamespace ''o'' 1
           [(''x 1'', [(''url'', JStr ''https://x.example/{%q}''), (''title'', JStr ''T'')]),
            (''y 0'', [(''include'', JObj [(''key'', JStr ''x 1'')]), (''title'', JStr ''T''),
                       (''url'', JStr ''https://x.example/{%q}'')])]],
        freshThis) \<and>
   (\<exists>this2.
      addIncludes (testWorld [] []) ''o''
        [siteNamespace ''o'' 1
           [(''x 1'', [(''url'', JStr ''https://x.example/{%q}''), (''title'', JStr ''T'')]),
            (''y 0'', [(''include'', JObj [(''key'', JStr ''x 1'')]), (''title'', JStr ''T''),
                       (''url'', JStr ''https://x.example/{%q}'')])]]
        freshThis =
      Inr ([siteNamespace ''o'' 1
              [(''x 1'', [(''url'', JStr ''https://x.example/{%q}''), (''title'', JStr ''T'')]),
               (''y 0'', [(''include'', JObj [(''key'', JStr ''x 1'')]), (''title'', JStr ''T''),
                          (''url'', JStr ''https://x.example/{%q}'')])]],
           this2))"
proof -
  let ?x = "[(''url'', JStr ''https://x.example/{%q}''), (''title'', JStr ''T'')]"
  let ?y = "[(''include'', JObj [(''key'', JStr ''x 1'')]), (''title'', JStr ''Y'')]"
  let ?infos = "[siteNamespace ''o'' 1 [(''x 1'', ?x), (''y 0'', ?y)]]"
  let ?infos1 = "[siteNamespace ''o'' 1
           [(''x 1'', ?x),
            (''y 0'', [(''include'', JObj [(''key'', JStr ''x 1'')]), (''title'', JStr ''T''),
                       (''url'', JStr ''https://x.example/{%q}'')])]]"
  have first: "addIncludes (testWorld [] []) ''o'' ?infos freshThis = Inr (?infos1, freshThis)"
    by (simp add: include_defs)
  have keys: "distinct (keysOf ?infos ''o'')"
    by (simp add: include_defs)
  have plain: "\<forall>key e t. lookupShortcut ?infos ''o'' key = Some e \<and> includeTarget ?infos1 ''o'' e = Some t \<longrightarrow>
                 map_of t ''include'' = None \<and> distinct (map fst t)"
    by (auto simp: include_defs includeTarget_def split: if_splits)
  from addIncludes_idempotent_without_chains[OF first keys plain] first
  show ?thesis by simp
qed

text \<open>The claim as stated speaks of every mapping. Here \<open>a 0\<close> includes \<open>b 0\<close>, which
  includes \<open>c 0\<close>. The first pass reaches \<open>a 0\<close> before \<open>b 0\<close> is resolved: \<open>a 0\<close> takes
  the URL of \<open>b 0\<close> and, with it, the include of \<open>b 0\<close>. The second pass follows that
  include and changes the URL of \<open>a 0\<close> to the one of \<open>c 0\<close>.\<close>

theorem addIncludes_chain_second_pass_counterexample:
  "addIncludes (testWorld [] []) ''o''
     [siteNamespace ''o'' 1
        [(''a 0'', [(''include'', JObj [(''key'', JStr ''b 0'')])]),
         (''b 0'', [(''include'', JObj [(''key'', JStr ''c 0'')]), (''url'', JStr ''https://b.example/'')]),
         (''c 0'', [(''url'', JStr ''https://c.example/'')])]]
     freshThis =
   Inr ([siteNamespace ''o'' 1
           [(''a 0'', [(''include'', JObj [(''key'', JStr ''c 0'')]), (''url'', JStr ''https://b.example/'')]),
            (''b 0'', [(''include'', JObj [(''key'', JStr ''c 0'')]), (''url'', JStr ''https://c.example/'')]),
            (''c 0'', [(''url'', JStr ''https://c.example/'')])]],
        freshThis) \<and>
   addIncludes (testWorld [] []) ''o''
     [siteNamespace ''o'' 1
        [(''a 0'', [(''include'', JObj [(''key'', JStr ''c 0'')]), (''url'', JStr ''https://b.example/'')]),
         (''b 0'', [(''include'', JObj [(''key'', JStr ''c 0'')]), (''url'', JStr ''https://c.example/'')]),
         (''c 0'', [(''url'', JStr ''https://c.example/'')])]]
     freshThis =
   Inr ([siteNamespace ''o'' 1
           [(''a 0'', [(''include'', JObj [(''key'', JStr ''c 0'')]), (''url'', JStr ''https://c.example/'')]),
            (''b 0'', [(''include'', JObj [(''key'', JStr ''c 0'')]), (''url'', JStr ''https://c.example/'')]),
            (''c 0'', [(''url'', JStr ''https://c.example/'')])]],
        freshThis)"
  by (simp add: include_defs)

subsection \<open>Reachability Annotator\<close>

lemma annotate_Cons:
  "fst (annotate w d ((key, s) # rest) found) =
     (key, AList.update ''reachable'' (JBool (key \<notin> set found)) (addInfoToShortcut w s key d))
       # fst (annotate w d rest (key # found))"
  "snd (annotate w d ((key, s) # rest) found) = snd (annotate w d rest (key # found))"
  by (simp_all add: Let_def case_prod_beta)

lemma annotate_keys: "map fst (fst (annotate w d sc found)) = map fst sc"
proof (induction sc arbitrary: found)
  case Nil
  show ?case by simp
next
  case (Cons a sc)
  obtain key s where a: "a = (key, s)" by (cases a)
  show ?case
    unfolding a annotate_Cons using Cons.IH by simp
qed

lemma annotate_found: "set (snd (annotate w d sc found)) = fst ` set sc \<union> set found"
proof (induction sc arbitrary: found)
  case Nil
  show ?case by simp
next
  case (Cons a sc)
  obtain key s where a: "a = (key, s)" by (cases a)
  show ?case
    unfolding a annotate_Cons Cons.IH by auto
qed

lemma annotate_reachable:
  assumes "map_of (fst (annotate w d sc found)) k = Some e"
    and "map_of e ''reachable'' = Some (JBool True)"
  shows "k \<notin> set found"
  using assms
proof (induction sc arbitrary: found)
  case Nil
  then show ?case by simp
next
  case (Cons a sc)
  obtain key s where a: "a = (key, s)" by (cases a)
  show ?case
  proof (cases "k = key")
    case True
    with Cons.prems show ?thesis
      by (auto simp: a annotate_Cons update_conv' simp del: annotate.simps(2))
  next
    case False
    with Cons.prems have "map_of (fst (annotate w d sc (key # found))) k = Some e"
      by (auto simp: a annotate_Cons simp del: annotate.simps(2))
    from Cons.IH[OF this Cons.prems(2)] show ?thesis by simp
  qed
qed

lemma annotate_flagged:
  assumes "map_of (fst (annotate w d sc found)) k = Some e"
  shows "\<exists>b. map_of e ''reachable'' = Some (JBool b)"
  using assms
proof (induction sc arbitrary: found)
  case Nil
  then show ?case by simp
next
  case (Cons a sc)
  obtain key s where a: "a = (key, s)" by (cases a)
  show ?case
  proof (cases "k = key")
    case True
    with Cons.prems show ?thesis
      by (auto simp: a annotate_Cons update_conv' simp del: annotate.simps(2))
  next
    case False
    with Cons.prems have "map_of (fst (annotate w d sc (key # found))) k = Some e"
      by (auto simp: a annotate_Cons simp del: annotate.simps(2))
    from Cons.IH[OF this] show ?thesis .
  qed
qed

lemma visited_names: "map fst (visited w ds found) = map fst ds"
  by (induction ds arbitrary: found) auto

lemma visit_visited:
  assumes "distinct (map fst ds)" and "\<forall>(n, d) \<in> set ds. map_of infos n = Some d"
  shows "visit w ds infos found = fold (\<lambda>(n, d) m. AList.update n d m) (visited w ds found) infos"
  using assms
proof (induction ds arbitrary: infos found)
  case Nil
  then show ?case by simp
next
  case (Cons a ds)
  obtain n d where a: "a = (n, d)" by (cases a)
  from Cons.prems have n: "map_of infos n = Some d" and fresh: "n \<notin> fst ` set ds"
    and dist: "distinct (map fst ds)"
    by (auto simp: a)
  show ?case
  proof (cases "isSubscribed d")
    case False
    have rest: "\<forall>(n, d) \<in> set ds. map_of infos n = Some d"
      using Cons.prems(2) by (simp add: a)
    have "AList.update n d infos = infos" using n by (rule update_triv)
    with False Cons.IH[OF dist rest] show ?thesis
      by (simp add: a)
  next
    case True
    define infos1 where
      "infos1 = AList.update n (d \<lparr> shortcuts := fst (annotate w d (shortcuts d) found) \<rparr>) infos"
    have rest: "\<forall>(n', d') \<in> set ds. map_of infos1 n' = Some d'"
    proof (clarify)
      fix n' d'
      assume mem: "(n', d') \<in> set ds"
      with fresh have "n' \<noteq> n" by force
      moreover from mem Cons.prems(2) have "map_of infos n' = Some d'" by (auto simp: a)
      ultimately show "map_of infos1 n' = Some d'"
        by (simp add: infos1_def update_conv')
    qed
    from True Cons.IH[OF dist rest] show ?thesis
      by (simp add: a infos1_def case_prod_beta)
  qed
qed

lemma visited_origin:
  assumes "(n, d') \<in> set (visited w ds found)"
  shows "\<exists>d. (n, d) \<in> set ds \<and> priority d' = priority d \<and> isSubscribed d' = isSubscribed d \<and>
             map fst (shortcuts d') = map fst (shortcuts d)"
  using assms
proof (induction ds arbitrary: found)
  case Nil
  then show ?case by simp
next
  case (Cons a ds)
  obtain n0 d0 where a: "a = (n0, d0)" by (cases a)
  from Cons.prems consider
      (head) "n = n0" "d' = d0 \<or> d' = d0 \<lparr> shortcuts := fst (annotate w d0 (shortcuts d0) found) \<rparr>"
    | (tail) found' where "(n, d') \<in> set (visited w ds found')"
    by (auto simp: a split: if_splits)
  then show ?case
  proof cases
    case head
    then show ?thesis
      by (auto simp: a isSubscribed_def annotate_keys)
  next
    case tail
    from Cons.IH[OF tail] show ?thesis by auto
  qed
qed

lemma visited_reachable_fresh:
  assumes "(n, d') \<in> set (visited w ds found)" and "isSubscribed d'"
    and "map_of (shortcuts d') k = Some e" and "map_of e ''reachable'' = Some (JBool True)"
  shows "k \<notin> set found"
  using assms
proof (induction ds arbitrary: found)
  case Nil
  then show ?case by simp
next
  case (Cons a ds)
  obtain n0 d0 where a: "a = (n0, d0)" by (cases a)
  show ?case
  proof (cases "isSubscribed d0")
    case False
    with Cons.prems(1,2) have "(n, d') \<in> set (visited w ds found)"
      by (auto simp: a)
    from Cons.IH[OF this Cons.prems(2,3,4)] show ?thesis .
  next
    case True
    with Cons.prems(1) consider
        (head) "d' = d0 \<lparr> shortcuts := fst (annotate w d0 (shortcuts d0) found) \<rparr>"
      | (tail) "(n, d') \<in> set (visited w ds (snd (annotate w d0 (shortcuts d0) found)))"
      by (auto simp: a)
    then show ?thesis
    proof cases
      case head
      with Cons.prems(3) have "map_of (fst (annotate w d0 (shortcuts d0) found)) k = Some e"
        by simp
      then show ?thesis using Cons.prems(4) by (rule annotate_reachable)
    next
      case tail
      from Cons.IH[OF tail Cons.prems(2,3,4)] show ?thesis
        by (simp add: annotate_found)
    qed
  qed
qed

lemma visited_unsubscribed:
  assumes "(n, d) \<in> set ds" and "\<not> isSubscribed d"
  shows "(n, d) \<in> set (visited w ds found)"
  using assms by (induction ds arbitrary: found) auto

lemma visited_flagged:
  assumes "(n, d') \<in> set (visited w ds found)" and "isSubscribed d'"
    and "map_of (shortcuts d') k = Some e"
  shows "\<exists>b. map_of e ''reachable'' = Some (JBool b)"
  using assms
proof (induction ds arbitrary: found)
  case Nil
  then show ?case by simp
next
  case (Cons a ds)
  obtain n0 d0 where a: "a = (n0, d0)" by (cases a)
  show ?case
  proof (cases "isSubscribed d0")
    case False
    with Cons.prems(1,2) have "(n, d') \<in> set (visited w ds found)"
      by (auto simp: a)
    from Cons.IH[OF this Cons.prems(2,3)] show ?thesis .
  next
    case True
    with Cons.prems(1) consider
        (head) "d' = d0 \<lparr> shortcuts := fst (annotate w d0 (shortcuts d0) found) \<rparr>"
      | (tail) "(n, d') \<in> set (visited w ds (snd (annotate w d0 (shortcuts d0) found)))"
      by (auto simp: a)
    then show ?thesis
    proof cases
      case head
      with Cons.prems(3) have "map_of (fst (annotate w d0 (shortcuts d0) found)) k = Some e"
        by simp
      then show ?thesis by (rule annotate_flagged)
    next
      case tail
      from Cons.IH[OF tail Cons.prems(2,3)] show ?thesis .
    qed
  qed
qed

text \<open>A key that the head of the list defines is found when the tail is visited.\<close>

lemma visited_tail_not_reachable:
  assumes sub: "isSubscribed d0" and key: "k \<in> fst ` set (shortcuts d0)"
    and mem: "(n, d') \<in> set (visited w ds (snd (annotate w d0 (shortcuts d0) found)))"
    and "isSubscribed d'" and "map_of (shortcuts d') k = Some e"
  shows "map_of e ''reachable'' \<noteq> Some (JBool True)"
proof
  assume "map_of e ''reachable'' = Some (JBool True)"
  with mem assms(4,5) have "k \<notin> set (snd (annotate w d0 (shortcuts d0) found))"
    by (rule visited_reachable_fresh)
  with key show False by (simp add: annotate_found)
qed

lemma visited_unique:
  assumes "(n1, d1) \<in> set (visited w ds found)" and "isSubscribed d1"
    and "map_of (shortcuts d1) k = Some e1" and "map_of e1 ''reachable'' = Some (JBool True)"
    and "(n2, d2) \<in> set (visited w ds found)" and "isSubscribed d2"
    and "map_of (shortcuts d2) k = Some e2" and "map_of e2 ''reachable'' = Some (JBool True)"
  shows "n1 = n2"
  using assms
proof (induction ds arbitrary: found)
  case Nil
  then show ?case by simp
next
  case (Cons a ds)
  obtain n0 d0 where a: "a = (n0, d0)" by (cases a)
  show ?case
  proof (cases "isSubscribed d0")
    case False
    with Cons.prems(1,2,5,6) have "(n1, d1) \<in> set (visited w ds found)"
        "(n2, d2) \<in> set (visited w ds found)"
      by (auto simp: a)
    then show ?thesis
      using Cons.IH Cons.prems by blast
  next
    case True
    let ?found1 = "snd (annotate w d0 (shortcuts d0) found)"
    let ?head = "d0 \<lparr> shortcuts := fst (annotate w d0 (shortcuts d0) found) \<rparr>"
    have "map fst (shortcuts ?head) = map fst (shortcuts d0)"
      by (simp add: annotate_keys)
    then have keys: "fst ` set (shortcuts ?head) = fst ` set (shortcuts d0)"
      by (metis set_map)
    from True Cons.prems(1) have c1: "(n1 = n0 \<and> d1 = ?head) \<or> (n1, d1) \<in> set (visited w ds ?found1)"
      by (auto simp: a)
    from True Cons.prems(5) have c2: "(n2 = n0 \<and> d2 = ?head) \<or> (n2, d2) \<in> set (visited w ds ?found1)"
      by (auto simp: a)
    have hasKey: "k \<in> fst ` set (shortcuts d0)" if "map_of (shortcuts ?head) k = Some e" for e
      using that keys by (metis map_of_SomeD fst_conv image_eqI)
    show ?thesis
    proof (cases "n1 = n0 \<and> d1 = ?head")
      case h1: True
      show ?thesis
      proof (cases "n2 = n0 \<and> d2 = ?head")
        case True
        with h1 show ?thesis by simp
      next
        case False
        with c2 have t2: "(n2, d2) \<in> set (visited w ds ?found1)" by simp
        from h1 Cons.prems(3) have "k \<in> fst ` set (shortcuts d0)"
          using hasKey by blast
        from visited_tail_not_reachable[OF \<open>isSubscribed d0\<close> this t2 Cons.prems(6,7)]
          Cons.prems(8) show ?thesis by simp
      qed
    next
      case False
      with c1 have t1: "(n1, d1) \<in> set (visited w ds ?found1)" by simp
      show ?thesis
      proof (cases "n2 = n0 \<and> d2 = ?head")
        case True
        with Cons.prems(7) have "k \<in> fst ` set (shortcuts d0)"
          using hasKey by blast
        from visited_tail_not_reachable[OF \<open>isSubscribed d0\<close> this t1 Cons.prems(2,3)]
          Cons.prems(4) show ?thesis by simp
      next
        case False
        with c2 have t2: "(n2, d2) \<in> set (visited w ds ?found1)" by simp
        from Cons.IH[OF t1 Cons.prems(2,3,4) t2 Cons.prems(6,7,8)] show ?thesis .
      qed
    qed
  qed
qed

lemma visited_highest:
  assumes "sorted (map (\<lambda>(n, d). - priority d) ds)"
    and "(n1, d1) \<in> set (visited w ds found)" and "isSubscribed d1"
    and "map_of (shortcuts d1) k = Some e1" and "map_of e1 ''reachable'' = Some (JBool True)"
    and "(n2, d2) \<in> set (visited w ds found)" and "isSubscribed d2"
    and "k \<in> fst ` set (shortcuts d2)"
  shows "priority d2 \<le> priority d1"
  using assms
proof (induction ds arbitrary: found)
  case Nil
  then show ?case by simp
next
  case (Cons a ds)
  obtain n0 d0 where a: "a = (n0, d0)" by (cases a)
  from Cons.prems(1) have sorted_tail: "sorted (map (\<lambda>(n, d). - priority d) ds)"
    and below: "\<forall>(n, d) \<in> set ds. priority d \<le> priority d0"
    by (auto simp: a)
  have tail_below: "priority d' \<le> priority d0" if "(n, d') \<in> set (visited w ds found')"
    for n d' found'
    using visited_origin[OF that] below by auto
  show ?case
  proof (cases "isSubscribed d0")
    case False
    with Cons.prems(2,3,6,7) have "(n1, d1) \<in> set (visited w ds found)"
        "(n2, d2) \<in> set (visited w ds found)"
      by (auto simp: a)
    then show ?thesis
      using Cons.IH[OF sorted_tail] Cons.prems by blast
  next
    case True
    let ?found1 = "snd (annotate w d0 (shortcuts d0) found)"
    let ?head = "d0 \<lparr> shortcuts := fst (annotate w d0 (shortcuts d0) found) \<rparr>"
    have "map fst (shortcuts ?head) = map fst (shortcuts d0)"
      by (simp add: annotate_keys)
    then have keys: "fst ` set (shortcuts ?head) = fst ` set (shortcuts d0)"
      by (metis set_map)
    from True Cons.prems(2) have c1: "(n1 = n0 \<and> d1 = ?head) \<or> (n1, d1) \<in> set (visited w ds ?found1)"
      by (auto simp: a)
    from True Cons.prems(6) have c2: "(n2 = n0 \<and> d2 = ?head) \<or> (n2, d2) \<in> set (visited w ds ?found1)"
      by (auto simp: a)
    show ?thesis
    proof (cases "n1 = n0 \<and> d1 = ?head")
      case h1: True
      show ?thesis
      proof (cases "n2 = n0 \<and> d2 = ?head")
        case True
        with h1 show ?thesis by simp
      next
        case False
        with c2 have "(n2, d2) \<in> set (visited w ds ?found1)" by simp
        from tail_below[OF this] h1 show ?thesis by simp
      qed
    next
      case False
      with c1 have t1: "(n1, d1) \<in> set (visited w ds ?found1)" by simp
      show ?thesis
      proof (cases "n2 = n0 \<and> d2 = ?head")
        case True
        with Cons.prems(8) keys have "k \<in> fst ` set (shortcuts d0)" by simp
        from visited_tail_not_reachable[OF \<open>isSubscribed d0\<close> this t1 Cons.prems(3,4)]
          Cons.prems(5) show ?thesis by simp
      next
        case False
        with c2 have t2: "(n2, d2) \<in> set (visited w ds ?found1)" by simp
        from Cons.IH[OF sorted_tail t1 Cons.prems(3,4,5) t2 Cons.prems(7,8)] show ?thesis .
      qed
    qed
  qed
qed

lemma fold_update_keys:
  "fst ` set es \<subseteq> fst ` set acc \<Longrightarrow>
   map fst (fold (\<lambda>(k, v) m. AList.update k v m) es acc) = map fst acc"
proof (induction es arbitrary: acc)
  case Nil
  show ?case by simp
next
  case (Cons e es)
  obtain k v where e: "e = (k, v)" by (cases e)
  from Cons.prems have k: "k \<in> fst ` set acc" by (simp add: e)
  then have same: "map fst (AList.update k v acc) = map fst acc"
    by (simp add: update_keys)
  then have "fst ` set (AList.update k v acc) = fst ` set acc"
    by (metis set_map)
  with Cons.prems have "fst ` set es \<subseteq> fst ` set (AList.update k v acc)"
    by (simp add: e)
  from Cons.IH[OF this] same show ?case
    by (simp add: e)
qed

lemma addReachable_visited:
  assumes "distinct (map fst infos)"
  shows "map fst (addReachable w infos) = map fst infos"
    and "map_of (addReachable w infos) n = Some d \<longleftrightarrow>
         (n, d) \<in> set (visited w (sort_key (\<lambda>(nm, namespaceInfo). - priority namespaceInfo) infos)
                          objectPrototypeKeys)"
proof -
  define ds where "ds = sort_key (\<lambda>(nm, namespaceInfo). - priority namespaceInfo) infos"
  define V where "V = visited w ds objectPrototypeKeys"
  have "mset (map fst ds) = mset (map fst infos)"
    by (simp add: ds_def)
  with assms have dds: "distinct (map fst ds)"
    by (metis mset_eq_imp_distinct_iff)
  have sds: "set ds = set infos" by (simp add: ds_def)
  have cons: "\<forall>(n, d) \<in> set ds. map_of infos n = Some d"
    using assms sds by auto
  have R: "addReachable w infos = fold (\<lambda>(n, d) m. AList.update n d m) V infos"
    unfolding addReachable_def ds_def[symmetric] V_def
    using dds cons by (rule visit_visited)
  have names: "map fst V = map fst ds"
    by (simp add: V_def visited_names)
  then have dV: "distinct (map fst V)" using dds by simp
  have "fst ` set V = fst ` set infos"
    using names sds by (metis set_map)
  then show "map fst (addReachable w infos) = map fst infos"
    unfolding R by (intro fold_update_keys) simp
  have "distinct (map fst (rev V))"
    using dV by (simp add: rev_map[symmetric])
  with dV have rv: "map_of (rev V) = map_of V"
    by (simp add: map_of_inject_set)
  have look: "map_of (addReachable w infos) n = (map_of infos ++ map_of V) n"
    unfolding R by (simp add: map_of_fold_update rv)
  have "map_of infos n = None" if "map_of V n = None"
  proof -
    from that have "n \<notin> fst ` set V" by (simp add: map_of_eq_None_iff)
    with \<open>fst ` set V = fst ` set infos\<close> show ?thesis
      by (simp add: map_of_eq_None_iff)
  qed
  then have "map_of (addReachable w infos) n = map_of V n"
    unfolding look by (cases "map_of V n") (simp_all add: map_add_def)
  then show "map_of (addReachable w infos) n = Some d \<longleftrightarrow>
         (n, d) \<in> set (visited w (sort_key (\<lambda>(nm, namespaceInfo). - priority namespaceInfo) infos)
                          objectPrototypeKeys)"
    using dV by (simp add: V_def ds_def)
qed

text \<open>
  C1. Let the names of the map be distinct (it is an object). After \<open>addReachable\<close>:
  among the subscribed namespaces at most one has an entry with \<open>reachable = true\<close>
  under any one key; the namespace of that entry has the highest priority among the
  subscribed namespaces that define the key; every entry of a subscribed namespace has
  been visited (it carries a boolean \<open>reachable\<close>); and a namespace without a positive
  priority is skipped: its descriptor, entries included, is the one it was before, so
  the annotator marks none of its entries. The names and their order stay.
\<close>

theorem addReachable_one_reachable_entry:
  assumes "distinct (map fst infos)"
  shows "(\<forall>n1 d1 e1 n2 d2 e2 k.
            map_of (addReachable w infos) n1 = Some d1 \<and> isSubscribed d1 \<and>
            map_of (shortcuts d1) k = Some e1 \<and> map_of e1 ''reachable'' = Some (JBool True) \<and>
            map_of (addReachable w infos) n2 = Some d2 \<and> isSubscribed d2 \<and>
            map_of (shortcuts d2) k = Some e2 \<and> map_of e2 ''reachable'' = Some (JBool True) \<longrightarrow>
            n1 = n2) \<and>
         (\<forall>n1 d1 e1 n2 d2 k.
            map_of (addReachable w infos) n1 = Some d1 \<and> isSubscribed d1 \<and>
            map_of (shortcuts d1) k = Some e1 \<and> map_of e1 ''reachable'' = Some (JBool True) \<and>
            map_of (addReachable w infos) n2 = Some d2 \<and> isSubscribed d2 \<and>
            k \<in> fst ` set (shortcuts d2) \<longrightarrow>
            priority d2 \<le> priority d1) \<and>
         (\<forall>n d k e.
            map_of (addReachable w infos) n = Some d \<and> isSubscribed d \<and>
            map_of (shortcuts d) k = Some e \<longrightarrow>
            (\<exists>b. map_of e ''reachable'' = Some (JBool b))) \<and>
         (\<forall>n d. map_of infos n = Some d \<and> \<not> isSubscribed d \<longrightarrow>
            map_of (addReachable w infos) n = Some d) \<and>
         (\<forall>n d. map_of (addReachable w infos) n = Some d \<and> \<not> isSubscribed d \<longrightarrow>
            map_of infos n = Some d) \<and>
         map fst (addReachable w infos) = map fst infos"
proof (intro conjI allI impI)
  let ?ds = "sort_key (\<lambda>(nm, namespaceInfo). - priority namespaceInfo) infos"
  note mem = addReachable_visited(2)[OF assms]
  have sorted: "sorted (map (\<lambda>(n, d). - priority d) ?ds)"
    by (rule sorted_sort_key)
  {
    fix n1 d1 e1 n2 d2 e2 k
    assume "map_of (addReachable w infos) n1 = Some d1 \<and> isSubscribed d1 \<and>
            map_of (shortcuts d1) k = Some e1 \<and> map_of e1 ''reachable'' = Some (JBool True) \<and>
            map_of (addReachable w infos) n2 = Some d2 \<and> isSubscribed d2 \<and>
            map_of (shortcuts d2) k = Some e2 \<and> map_of e2 ''reachable'' = Some (JBool True)"
    then show "n1 = n2"
      using visited_unique[of n1 d1 w ?ds objectPrototypeKeys k e1 n2 d2 e2] mem by blast
  }
  {
    fix n1 d1 e1 n2 d2 k
    assume "map_of (addReachable w infos) n1 = Some d1 \<and> isSubscribed d1 \<and>
            map_of (shortcuts d1) k = Some e1 \<and> map_of e1 ''reachable'' = Some (JBool True) \<and>
            map_of (addReachable w infos) n2 = Some d2 \<and> isSubscribed d2 \<and>
            k \<in> fst ` set (shortcuts d2)"
    then show "priority d2 \<le> priority d1"
      using visited_highest[OF sorted, of n1 d1 w objectPrototypeKeys k e1 n2 d2] mem by blast
  }
  {
    fix n d k e
    assume "map_of (addReachable w infos) n = Some d \<and> isSubscribed d \<and>
            map_of (shortcuts d) k = Some e"
    then show "\<exists>b. map_of e ''reachable'' = Some (JBool b)"
      using visited_flagged[of n d w ?ds objectPrototypeKeys k e] mem by blast
  }
  {
    fix n d
    assume h: "map_of infos n = Some d \<and> \<not> isSubscribed d"
    then have "(n, d) \<in> set ?ds"
      by (auto dest: map_of_SomeD)
    with h have "(n, d) \<in> set (visited w ?ds objectPrototypeKeys)"
      by (auto intro: visited_unsubscribed)
    then show "map_of (addReachable w infos) n = Some d"
      using mem by blast
  }
  {
    fix n d
    assume h: "map_of (addReachable w infos) n = Some d \<and> \<not> isSubscribed d"
    then have "(n, d) \<in> set (visited w ?ds objectPrototypeKeys)"
      using mem by blast
    from visited_origin[OF this] h obtain d0 where
      d0: "(n, d0) \<in> set ?ds" "\<not> isSubscribed d0"
      by auto
    then have "(n, d0) \<in> set (visited w ?ds objectPrototypeKeys)"
      by (rule visited_unsubscribed)
    then have "map_of (addReachable w infos) n = Some d0"
      using mem by blast
    with h have "d0 = d" by simp
    with d0(1) show "map_of infos n = Some d"
      using assms by simp
  }
  show "map fst (addReachable w infos) = map fst infos"
    using assms by (rule addReachable_visited(1))
qed

theorem addReachable_one_reachable_entry_witness:
  "distinct (map fst
     [siteNamespace ''b'' 1 [(''x 1'', [(''url'', JStr ''https://b.example/'')])],
      siteNamespace ''a'' 2 [(''x 1'', [(''url'', JStr ''https://a.example/'')])],
      siteNamespace ''c'' 0 [(''x 1'', [(''url'', JStr ''https://c.example/'')])]]) \<and>
   map fst (addReachable (testWorld [] [])
     [siteNamespace ''b'' 1 [(''x 1'', [(''url'', JStr ''https://b.example/'')])],
      siteNamespace ''a'' 2 [(''x 1'', [(''url'', JStr ''https://a.example/'')])],
      siteNamespace ''c'' 0 [(''x 1'', [(''url'', JStr ''https://c.example/'')])]]) =
     [''b'', ''a'', ''c''] \<and>
   map (\<lambda>(n, d). (n, map (\<lambda>(k, e). (k, map_of e ''reachable'')) (shortcuts d)))
     (addReachable (testWorld [] [])
        [siteNamespace ''b'' 1 [(''x 1'', [(''url'', JStr ''https://b.example/'')])],
         siteNamespace ''a'' 2 [(''x 1'', [(''url'', JStr ''https://a.example/'')])],
         siteNamespace ''c'' 0 [(''x 1'', [(''url'', JStr ''https://c.example/'')])]]) =
     [(''b'', [(''x 1'', Some (JBool False))]),
      (''a'', [(''x 1'', Some (JBool True))]),
      (''c'', [(''x 1'', None)])]"
proof -
  let ?infos = "[siteNamespace ''b'' 1 [(''x 1'', [(''url'', JStr ''https://b.example/'')])],
      siteNamespace ''a'' 2 [(''x 1'', [(''url'', JStr ''https://a.example/'')])],
      siteNamespace ''c'' 0 [(''x 1'', [(''url'', JStr ''https://c.example/'')])]]"
  have d: "distinct (map fst ?infos)"
    by (simp add: siteNamespace_def)
  from addReachable_one_reachable_entry[OF d, of "testWorld [] []"]
  have "map fst (addReachable (testWorld [] []) ?infos) = map fst ?infos"
    by blast
  then have keys: "map fst (addReachable (testWorld [] []) ?infos) = [''b'', ''a'', ''c'']"
    by (simp add: siteNamespace_def)
  have flags: "map (\<lambda>(n, d). (n, map (\<lambda>(k, e). (k, map_of e ''reachable'')) (shortcuts d)))
     (addReachable (testWorld [] []) ?infos) =
     [(''b'', [(''x 1'', Some (JBool False))]),
      (''a'', [(''x 1'', Some (JBool True))]),
      (''c'', [(''x 1'', None)])]"
    by (simp add: reach_defs)
  from d keys flags show ?thesis by blast
qed

subsection \<open>Environment\<close>

lemma startIncludes_empty:
  assumes "\<forall>(n, d) \<in> set infos. shortcuts d = []"
  shows "startIncludes ns infos this = ((infos, this), map (\<lambda>n. (n, Finished)) ns)"
proof (induction ns)
  case Nil
  show ?case by simp
next
  case (Cons n ns)
  have "keysOf infos n = []"
    using assms by (auto simp: keysOf_def split: option.splits dest!: map_of_SomeD)
  with Cons show ?case by simp
qed

lemma resumeIncludes_finished:
  "resumeIncludes (map (\<lambda>n. (n, Finished)) ns) infos this = (infos, this)"
  by (induction ns) simp_all

lemma visit_empty:
  assumes "\<forall>(n, d) \<in> set ds. shortcuts d = [] \<and> map_of infos n = Some d"
  shows "visit w ds infos found = infos"
  using assms
proof (induction ds arbitrary: found)
  case Nil
  show ?case by simp
next
  case (Cons e ds)
  obtain n d where e: "e = (n, d)" by (cases e)
  from Cons.prems have d: "shortcuts d = []" "map_of infos n = Some d"
    by (simp_all add: e)
  have same: "d \<lparr> shortcuts := [] \<rparr> = d" using d(1) by simp
  have upd: "AList.update n d infos = infos"
    using d(2) by (rule update_triv)
  from Cons.prems have rest: "\<forall>(n, d) \<in> set ds. shortcuts d = [] \<and> map_of infos n = Some d"
    by (simp add: e)
  show ?case
    unfolding e visit.simps d(1) annotate.simps Let_def prod.case same upd
    using Cons.IH[OF rest] by simp
qed

lemma addReachable_empty:
  assumes "distinct (map fst infos)" and "\<forall>(n, d) \<in> set infos. shortcuts d = []"
  shows "addReachable w infos = infos"
  unfolding addReachable_def
  by (rule visit_empty) (use assms in \<open>auto\<close>)


lemma fetchShortcuts_all_empty:
  assumes perm: "mset (settleOrder w (startFetches (getInitialNamespaceInfos (this_github this) nss))) =
           mset (startFetches (getInitialNamespaceInfos (this_github this) nss))"
    and none: "\<forall>(i, u) \<in> set (startFetches (getInitialNamespaceInfos (this_github this) nss)).
            \<exists>r. net w u reload = Fulfilled r \<and>
                (status r \<noteq> 200 \<or> (\<exists>msg. yamlLoad w (body r) = YamlError msg))"
  shows "\<exists>this1.
           fetchShortcuts w nss reload debug this =
             Inr (map (\<lambda>(n, d). (n, d \<lparr> shortcuts := [], nullish := False \<rparr>))
                    (getInitialNamespaceInfos (this_github this) nss), this1)"
proof -
  define infos0 where "infos0 = getInitialNamespaceInfos (this_github this) nss"
  define responses where "responses =
    (\<lambda>j. case map_of (startFetches infos0) j of
            None \<Rightarrow> None
          | Some u \<Rightarrow> (case net w u reload of Rejected \<Rightarrow> None | Fulfilled r \<Rightarrow> Some r))"
  have norej: "\<not> (\<exists>(i, u) \<in> set (startFetches infos0). net w u reload = Rejected)"
    using none unfolding infos0_def by fastforce
  have loop: "fetchShortcuts w nss reload debug this = fetchLoop w reload debug responses infos0 this"
    using norej fetchShortcuts_char[OF perm, of reload debug]
    by (simp add: responses_def infos0_def)
  have failedOrNone: "responses j = None \<or>
                      (\<exists>r. responses j = Some r \<and>
                           (status r \<noteq> 200 \<or> (\<exists>msg. yamlLoad w (body r) = YamlError msg)))" for j
  proof (cases "map_of (startFetches infos0) j")
    case None
    then show ?thesis by (simp add: responses_def)
  next
    case (Some u)
    then have "(j, u) \<in> set (startFetches infos0)"
      by (rule map_of_SomeD)
    with none obtain r where "net w u reload = Fulfilled r"
        "status r \<noteq> 200 \<or> (\<exists>msg. yamlLoad w (body r) = YamlError msg)"
      unfolding infos0_def by fastforce
    with Some show ?thesis by (simp add: responses_def)
  qed
  have quiet: "\<not> verifyThrows w (responses j)" for j
    using failedOrNone[of j] by (auto simp: verifyThrows_def)
  have empty: "filled w (responses j) d = d \<lparr> shortcuts := [], nullish := False \<rparr>" for j d
    using failedOrNone[of j] by (auto simp: filled_def loadedShortcuts_def)
  from fetchLoop_result[of infos0 w responses reload debug this] quiet
  obtain this1 where
    "fetchLoop w reload debug responses infos0 this =
       Inr (map (\<lambda>(n, d). (n, filled w (responses (priority d)) d)) infos0, this1)"
    by auto
  with loop show ?thesis
    unfolding infos0_def[symmetric] by (auto simp: empty)
qed

text \<open>
  C5 (as amended). When no namespace of the list is resolvable because every fetch
  settles with a status other than 200 or with a body on which the parser throws,
  \<open>populate\<close> reports no failure: it resolves as usual, with the descriptor of every
  name of the list, each with an empty shortcut set. It rejects, with the rejection of
  the fetch, when a fetch rejects (a transport failure).
\<close>

theorem populate_nothing_resolvable:
  assumes "mset (settleOrder w (startFetches
                   (getInitialNamespaceInfos (this_github this) (requestedNamespaces params)))) =
           mset (startFetches
                   (getInitialNamespaceInfos (this_github this) (requestedNamespaces params)))"
  shows "((\<forall>(i, u) \<in> set (startFetches
                   (getInitialNamespaceInfos (this_github this) (requestedNamespaces params))).
             \<exists>r. net w u (this_reload this) = Fulfilled r \<and>
                 (status r \<noteq> 200 \<or> (\<exists>msg. yamlLoad w (body r) = YamlError msg))) \<longrightarrow>
          (\<exists>this1.
             populate w params this =
               Inr (map (\<lambda>(n, d). (n, d \<lparr> shortcuts := [], nullish := False \<rparr>))
                      (getInitialNamespaceInfos (this_github this) (requestedNamespaces params)),
                    this1))) \<and>
         ((\<exists>(i, u) \<in> set (startFetches
                   (getInitialNamespaceInfos (this_github this) (requestedNamespaces params))).
             net w u (this_reload this) = Rejected) \<longrightarrow>
          populate w params this = Inl NetworkError)"
proof (intro conjI impI)
  assume none: "\<forall>(i, u) \<in> set (startFetches
                   (getInitialNamespaceInfos (this_github this) (requestedNamespaces params))).
             \<exists>r. net w u (this_reload this) = Fulfilled r \<and>
                 (status r \<noteq> 200 \<or> (\<exists>msg. yamlLoad w (body r) = YamlError msg))"
  define infos where "infos = map (\<lambda>(n, d). (n, d \<lparr> shortcuts := [], nullish := False \<rparr>))
    (getInitialNamespaceInfos (this_github this) (requestedNamespaces params))"
  from fetchShortcuts_all_empty[OF assms none, of "this_debug this"]
  obtain this1 where
    res: "fetchShortcuts w (requestedNamespaces params) (this_reload this) (this_debug this) this =
            Inr (infos, this1)"
    unfolding infos_def by blast
  have "map fst infos =
          map fst (getInitialNamespaceInfos (this_github this) (requestedNamespaces params))"
    by (simp add: infos_def case_prod_beta comp_def)
  then have dn: "distinct (map fst infos)"
    by (simp add: getInitialNamespaceInfos_distinct_names)
  have empty: "\<forall>(n, d) \<in> set infos. shortcuts d = []"
    by (auto simp: infos_def)
  have resumed: "resumeIncludes (map (\<lambda>n. (n, Finished)) (map fst infos)) infos this1 = (infos, this1)"
    by (rule resumeIncludes_finished)
  have "populate w params this = Inr (infos, this1)"
    by (simp add: populate_def getNamespaceInfos_def res startIncludes_empty[OF empty]
          resumed[simplified] addReachable_empty[OF dn empty])
  then show "\<exists>this1.
             populate w params this =
               Inr (map (\<lambda>(n, d). (n, d \<lparr> shortcuts := [], nullish := False \<rparr>))
                      (getInitialNamespaceInfos (this_github this) (requestedNamespaces params)),
                    this1)"
    unfolding infos_def by blast
next
  assume "\<exists>(i, u) \<in> set (startFetches
                   (getInitialNamespaceInfos (this_github this) (requestedNamespaces params))).
             net w u (this_reload this) = Rejected"
  then have "fetchShortcuts w (requestedNamespaces params) (this_reload this) (this_debug this)
               this = Inl NetworkError"
    using fetchShortcuts_char[OF assms, of "this_reload this" "this_debug this"] by simp
  then show "populate w params this = Inl NetworkError"
    by (simp add: populate_def getNamespaceInfos_def)
qed

theorem populate_nothing_resolvable_witness:
  "(\<exists>this1.
      populate
        (loadWorld [(siteUrl ''o'', 404, ''Not Found''), (siteUrl ''en'', 200, ''{''),
                    (siteUrl ''.us'', 500, [])]
                   [(''{'', YamlError ''unexpected end of the stream'')])
        \<lparr> language = ''en'', country = ''us'', namespaces = None, extraNamespaceName = None \<rparr>
        freshThis =
      Inr ([(''o'', \<lparr> name = Some ''o'', type = Some ''site'', url = Some (siteUrl ''o''),
                      github = None, priority = 1, shortcuts = [], nullish = False \<rparr>),
            (''en'', \<lparr> name = Some ''en'', type = Some ''site'', url = Some (siteUrl ''en''),
                       github = None, priority = 2, shortcuts = [], nullish = False \<rparr>),
            (''.us'', \<lparr> name = Some ''.us'', type = Some ''site'', url = Some (siteUrl ''.us''),
                        github = None, priority = 3, shortcuts = [], nullish = False \<rparr>)],
           this1)) \<and>
   populate
     (loadWorld [(siteUrl ''o'', 404, ''Not Found''), (siteUrl ''.us'', 500, [])] [])
     \<lparr> language = ''en'', country = ''us'', namespaces = None, extraNamespaceName = None \<rparr>
     freshThis = Inl NetworkError"
  using populate_nothing_resolvable
          [of "loadWorld [(siteUrl ''o'', 404, ''Not Found''), (siteUrl ''en'', 200, ''{''),
                          (siteUrl ''.us'', 500, [])]
                         [(''{'', YamlError ''unexpected end of the stream'')]"
              freshThis
              "\<lparr> language = ''en'', country = ''us'', namespaces = None,
                 extraNamespaceName = None \<rparr>"]
        populate_nothing_resolvable
          [of "loadWorld [(siteUrl ''o'', 404, ''Not Found''), (siteUrl ''.us'', 500, [])] []"
              freshThis
              "\<lparr> language = ''en'', country = ''us'', namespaces = None,
                 extraNamespaceName = None \<rparr>"]
  by (simp add: eval_defs session_defs)

text \<open>The claim as stated has \<open>populate\<close> report a failure when nothing is resolvable.
  Every fetch answers 404 here, and \<open>populate\<close> returns the three descriptors.\<close>

theorem populate_no_failed_result_counterexample:
  "populate
     (testWorld [(siteUrl ''o'', 404, []), (siteUrl ''en'', 404, []),
                 (siteUrl ''.us'', 404, [])] [])
     \<lparr> language = ''en'', country = ''us'', namespaces = None, extraNamespaceName = None \<rparr>
     freshThis =
   Inr ([(''o'', \<lparr> name = Some ''o'', type = Some ''site'', url = Some (siteUrl ''o''),
                   github = None, priority = 1, shortcuts = [], nullish = False \<rparr>),
         (''en'', \<lparr> name = Some ''en'', type = Some ''site'', url = Some (siteUrl ''en''),
                    github = None, priority = 2, shortcuts = [], nullish = False \<rparr>),
         (''.us'', \<lparr> name = Some ''.us'', type = Some ''site'', url = Some (siteUrl ''.us''),
                     github = None, priority = 3, shortcuts = [], nullish = False \<rparr>)],
        freshThis)"
  by (simp add: eval_defs session_defs)

text \<open>
  C10. A namespace that is fetched on demand is assigned into the map with priority 1,
  as the only element of a list would be, and \<open>isSubscribed\<close> holds for it (second and
  third statement: the call of \<open>getShortcutFromNamespace\<close> awaited where it stands). But
  \<open>getNamespaceInfos\<close> does not wait for it: \<open>addReachable\<close> runs while the fetch of
  \<open>jane\<close> is pending, so the map it annotates and returns holds \<open>o\<close> alone (first
  statement), and \<open>addReachable\<close> is not called again.
\<close>

theorem getNamespaceInfos_on_demand_namespace_unannotated:
  "getNamespaceInfos
     (testWorld [(siteUrl ''o'', 200, ''o-doc''), (githubUrl ''jane'', 200, ''jane-doc'')]
        [(''o-doc'', [(''y 0'', Full [(''include'', JObj [(''key'', JStr ''x 1''),
                                                          (''namespace'', JStr ''jane'')])])]),
         (''jane-doc'', [(''x 1'', Bare ''https://x.example/'')])])
     [NsString ''o''] False False freshThis =
   Inr ([siteNamespace ''o'' 1
           [(''y 0'', [(''include'', JObj [(''key'', JStr ''x 1''), (''namespace'', JStr ''jane'')]),
                       (''key'', JStr ''y 0''), (''keyword'', JStr ''y''),
                       (''argumentCount'', JStr ''0''), (''namespace'', JStr ''o''),
                       (''arguments'', JObj []), (''title'', JStr []),
                       (''reachable'', JBool True)])]],
        freshThis \<lparr> logged := [''.''] \<rparr>) \<and>
   getShortcutFromNamespace
     (testWorld [(siteUrl ''o'', 200, ''o-doc''), (githubUrl ''jane'', 200, ''jane-doc'')]
        [(''o-doc'', [(''y 0'', Full [(''include'', JObj [(''key'', JStr ''x 1''),
                                                          (''namespace'', JStr ''jane'')])])]),
         (''jane-doc'', [(''x 1'', Bare ''https://x.example/'')])])
     (JStr ''x 1'') (JStr ''jane'')
     [siteNamespace ''o'' 1
        [(''y 0'', [(''include'', JObj [(''key'', JStr ''x 1''), (''namespace'', JStr ''jane'')])])]]
     freshThis =
   Inr (Some [(''url'', JStr ''https://x.example/'')],
        [siteNamespace ''o'' 1
           [(''y 0'', [(''include'', JObj [(''key'', JStr ''x 1''), (''namespace'', JStr ''jane'')])])],
         (''jane'', \<lparr> name = Some ''jane'', type = Some ''user'', url = Some (githubUrl ''jane''),
                      github = Some ''jane'', priority = 1,
                      shortcuts = [(''x 1'', [(''url'', JStr ''https://x.example/'')])],
                      nullish = False \<rparr>)],
        freshThis \<lparr> logged := [''.''] \<rparr>) \<and>
   isSubscribed \<lparr> name = Some ''jane'', type = Some ''user'', url = Some (githubUrl ''jane''),
                  github = Some ''jane'', priority = 1,
                  shortcuts = [(''x 1'', [(''url'', JStr ''https://x.example/'')])],
                  nullish = False \<rparr>"
  by (simp add: eval_defs session_defs getShortcutFromNamespace_def assignInfos_def
        siteNamespace_def)

end
